theory Spec2Isabelle
  imports Main "HOL-Library.Word"
begin

unbundle bit_operations_syntax

section \<open>Data model\<close>

text \<open>
  \<^verbatim>\<open>struct BigInt { std::vector<uint32_t> digits; bool negative; }\<close>:
  the magnitude in base \<open>2^32\<close>, least significant word first, and the sign flag.
  \<open>uint32_t\<close> is \<open>32 word\<close>, \<open>uint64_t\<close> and \<open>int64_t\<close> are \<open>64 word\<close>
  (read with \<open>unat\<close>, respectively compared with the signed order), \<open>size_t\<close> indices are
  \<open>nat\<close>.
\<close>

type_synonym u32 = "32 word"
type_synonym u64 = "64 word"

record BigInt =
  digits :: "u32 list"
  negative :: bool

text \<open>
  The outcomes of a call that does not return a value. \<open>DivisionByZero\<close> is the
  \<^verbatim>\<open>std::runtime_error("Division by zero")\<close> thrown by \<open>divmod\<close>, and \<open>LengthError\<close>
  the \<^verbatim>\<open>std::length_error\<close> that \<^verbatim>\<open>std::vector::resize\<close> throws for a size above
  \<^verbatim>\<open>max_size()\<close>. The other two stand for undefined behaviour of the C++ source:
  \<open>OutOfBounds\<close> is an access \<^verbatim>\<open>v[i]\<close> with \<open>i \<ge> v.size()\<close> (or \<^verbatim>\<open>back()\<close> of an
  empty vector), \<open>Undefined\<close> is \<^verbatim>\<open>__builtin_clz(0)\<close> or a machine division by zero.
  A call that never returns (unbounded recursion or an endless loop) is the value
  \<open>None\<close> of the surrounding option type.
\<close>

datatype error = DivisionByZero | OutOfBounds | Undefined | LengthError

section \<open>Constructors\<close>

text \<open>\<^verbatim>\<open>BigInt() : negative(false) {}\<close>\<close>

definition BigInt_default :: BigInt where
  "BigInt_default = \<lparr>digits = [], negative = False\<rparr>"

text \<open>
  \<^verbatim>\<open>BigInt(int value)\<close>: the \<open>int\<close> is a 32-bit word read as two's complement. The
  negation wraps for \<open>INT_MIN\<close> (undefined in C++; no caller in the source passes it).
\<close>

definition BigInt_of_int :: "u32 \<Rightarrow> BigInt" where
  "BigInt_of_int v =
     (let neg = (v <s 0);
          v' = (if neg then - v else v)
      in \<lparr>digits = (if v' \<noteq> 0 then [v'] else []), negative = neg\<rparr>)"

text \<open>\<^verbatim>\<open>BigInt(uint32_t value) : negative(false)\<close>\<close>

definition BigInt_of_uint32 :: "u32 \<Rightarrow> BigInt" where
  "BigInt_of_uint32 v = \<lparr>digits = (if v \<noteq> 0 then [v] else []), negative = False\<rparr>"

section \<open>Helper functions\<close>

text \<open>
  \<^verbatim>\<open>while (digits.size() > 1 && digits.back() == 0) digits.pop_back();\<close>
\<close>

function trim_digits :: "u32 list \<Rightarrow> u32 list" where
  "trim_digits ds =
     (if length ds > 1 \<and> last ds = 0 then trim_digits (butlast ds) else ds)"
  by pat_completeness auto
termination
  by (relation "measure length") auto

declare trim_digits.simps [simp del]

text \<open>
  \<^verbatim>\<open>trim()\<close>: after the loop,
  \<^verbatim>\<open>if (digits.size() == 1 && digits[0] == 0) negative = false;\<close>
\<close>

definition trim :: "BigInt \<Rightarrow> BigInt" where
  "trim x =
     (let ds = trim_digits (digits x)
      in \<lparr>digits = ds,
          negative = (if length ds = 1 \<and> ds ! 0 = 0 then False else negative x)\<rparr>)"

definition isZero :: "BigInt \<Rightarrow> bool" where
  "isZero x \<longleftrightarrow> digits x = [] \<or> (length (digits x) = 1 \<and> digits x ! 0 = 0)"

definition abs_big :: "BigInt \<Rightarrow> BigInt" where
  "abs_big x = x\<lparr>negative := False\<rparr>"

text \<open>Unary minus: \<^verbatim>\<open>if (!isZero()) result.negative = !negative;\<close>\<close>

definition neg :: "BigInt \<Rightarrow> BigInt" where
  "neg x = (if \<not> isZero x then x\<lparr>negative := \<not> negative x\<rparr> else x)"

section \<open>Comparison\<close>

text \<open>
  The scan of \<^verbatim>\<open>operator<\<close> from the most significant word down; the counter is
  \<open>i + 1\<close>, so that \<open>0\<close> is the end of the loop. Both vectors have the same size
  when the loop is reached, so every read is in range.
\<close>

fun lt_loop :: "u32 list \<Rightarrow> u32 list \<Rightarrow> bool \<Rightarrow> nat \<Rightarrow> bool" where
  "lt_loop ds os ng 0 = False"
| "lt_loop ds os ng (Suc i) =
     (if ds ! i \<noteq> os ! i
      then (if ng then ds ! i > os ! i else ds ! i < os ! i)
      else lt_loop ds os ng i)"

definition lt :: "BigInt \<Rightarrow> BigInt \<Rightarrow> bool" where
  "lt x y =
     (if negative x \<noteq> negative y then negative x
      else if length (digits x) \<noteq> length (digits y)
      then (if negative x then length (digits x) > length (digits y)
            else length (digits x) < length (digits y))
      else lt_loop (digits x) (digits y) (negative x) (length (digits x)))"

definition ge :: "BigInt \<Rightarrow> BigInt \<Rightarrow> bool" where
  "ge x y \<longleftrightarrow> \<not> lt x y"

text \<open>\<^verbatim>\<open>operator==\<close>: same flag and the same word vector.\<close>

definition eq :: "BigInt \<Rightarrow> BigInt \<Rightarrow> bool" where
  "eq x y \<longleftrightarrow> negative x = negative y \<and> digits x = digits y"

section \<open>Addition and subtraction\<close>

text \<open>The low 32 bits of a 64-bit value: \<^verbatim>\<open>static_cast<uint32_t>(s & 0xFFFFFFFF)\<close>.\<close>

definition lo32 :: "u64 \<Rightarrow> u32" where
  "lo32 s = ucast (s AND 0xFFFFFFFF)"

text \<open>
  The loop of \<^verbatim>\<open>operator+\<close> for operands of the same sign:
  \<^verbatim>\<open>for (size_t i = 0; i < n || carry; ++i)\<close> with \<open>n\<close> the larger of the two sizes.
  Both reads are guarded by the source.
\<close>

function add_loop :: "u32 list \<Rightarrow> u32 list \<Rightarrow> nat \<Rightarrow> u64 \<Rightarrow> u32 list \<Rightarrow> u32 list" where
  "add_loop ds os i carry acc =
     (if i < max (length ds) (length os) \<or> carry \<noteq> 0
      then (let s0 = carry;
                s1 = (if i < length ds then s0 + ucast (ds ! i) else s0);
                s2 = (if i < length os then s1 + ucast (os ! i) else s1)
            in add_loop ds os (i + 1) (drop_bit 32 s2) (acc @ [lo32 s2]))
      else acc)"
  by pat_completeness auto
termination
proof (relation "measures [\<lambda>(ds, os, i, carry, acc). max (length ds) (length os) - i,
                           \<lambda>(ds, os, i, carry, acc). unat carry]", goal_cases)
  case 1
  show ?case by simp
next
  case (2 ds os i carry acc s0 s1 s2)
  have small: "unat (drop_bit 32 c) < unat c" if "c \<noteq> 0" for c :: u64
  proof -
    have "unat c \<noteq> 0" using that by (simp add: unat_eq_0)
    then have "unat c div 2 ^ 32 < unat c" by simp
    then show ?thesis by (simp add: drop_bit_eq_div unat_div)
  qed
  show ?case
  proof (cases "i < max (length ds) (length os)")
    case True
    then show ?thesis by auto
  next
    case False
    with 2 have "carry \<noteq> 0" "s2 = carry" by auto
    with False small [of carry] show ?thesis by auto
  qed
qed

declare add_loop.simps [simp del]

text \<open>
  The loop of \<^verbatim>\<open>operator-\<close> when \<open>|this| \<ge> |other|\<close>. \<open>diff\<close> and \<open>borrow\<close> are
  \<open>int64_t\<close>; \<^verbatim>\<open>diff < 0\<close> is the signed comparison, \<^verbatim>\<open>diff += (1ULL << 32)\<close> adds
  \<open>2^32\<close> modulo \<open>2^64\<close>.
\<close>

function sub_loop :: "u32 list \<Rightarrow> u32 list \<Rightarrow> nat \<Rightarrow> u64 \<Rightarrow> u32 list \<Rightarrow> u32 list" where
  "sub_loop ds os i borrow acc =
     (if i < length ds
      then (let d0 = ucast (ds ! i) - borrow;
                d1 = (if i < length os then d0 - ucast (os ! i) else d0);
                d2 = (if d1 <s 0 then d1 + push_bit 32 1 else d1);
                borrow' = (if d1 <s 0 then 1 else 0)
            in sub_loop ds os (i + 1) borrow' (acc @ [lo32 d2]))
      else acc)"
  by pat_completeness auto
termination
  by (relation "measure (\<lambda>(ds, os, i, borrow, acc). length ds - i)") auto

declare sub_loop.simps [simp del]

text \<open>
  \<^verbatim>\<open>operator+\<close> and \<^verbatim>\<open>operator-\<close> call each other; the flag \<open>is_sub\<close> selects the
  body. The recursion of the source is not bounded (each delegates to the other when the
  signs differ), so a call that never returns is \<open>None\<close>.
\<close>

partial_function (option) addsub :: "bool \<Rightarrow> BigInt \<Rightarrow> BigInt \<Rightarrow> BigInt option" where
  "addsub is_sub x y =
     (if \<not> is_sub then
        (if negative x = negative y
         then Some \<lparr>digits = add_loop (digits x) (digits y) 0 0 [], negative = negative x\<rparr>
         else addsub True x (neg y))
      else
        (if negative x \<noteq> negative y
         then addsub False x (neg y)
         else if ge (abs_big x) (abs_big y)
         then Some (trim \<lparr>digits = sub_loop (digits x) (digits y) 0 0 [],
                          negative = negative x\<rparr>)
         else Option.bind (addsub True y x) (\<lambda>r. Some (neg r))))"

declare addsub.simps [code]

definition add :: "BigInt \<Rightarrow> BigInt \<Rightarrow> BigInt option" where
  "add x y = addsub False x y"

definition sub :: "BigInt \<Rightarrow> BigInt \<Rightarrow> BigInt option" where
  "sub x y = addsub True x y"

section \<open>Multiplication\<close>

text \<open>
  The inner loop of \<^verbatim>\<open>operator*\<close>:
  \<^verbatim>\<open>for (size_t j = 0; j < other.digits.size() || carry; ++j)\<close>, reading and writing
  \<^verbatim>\<open>result.digits[i + j]\<close> with no check of the index.
\<close>

function mul_row :: "u32 list \<Rightarrow> u32 \<Rightarrow> u32 list \<Rightarrow> nat \<Rightarrow> nat \<Rightarrow> u64 \<Rightarrow> error + u32 list" where
  "mul_row res d os i j carry =
     (if j < length os \<or> carry \<noteq> 0
      then (if i + j < length res
            then (let s = ucast (res ! (i + j))
                          + ucast d * 1 * (if j < length os then ucast (os ! j) else 0)
                          + carry
                  in mul_row (res[i + j := lo32 s]) d os i (j + 1) (drop_bit 32 s))
            else Inl OutOfBounds)
      else Inr res)"
  by pat_completeness auto
termination
  by (relation "measure (\<lambda>(res, d, os, i, j, carry). length res - (i + j))") auto

declare mul_row.simps [simp del]

function mul_rows :: "u32 list \<Rightarrow> u32 list \<Rightarrow> u32 list \<Rightarrow> nat \<Rightarrow> error + u32 list" where
  "mul_rows res ds os i =
     (if i < length ds
      then (case mul_row res (ds ! i) os i 0 0 of
              Inl e \<Rightarrow> Inl e
            | Inr res' \<Rightarrow> mul_rows res' ds os (i + 1))
      else Inr res)"
  by pat_completeness auto
termination
  by (relation "measure (\<lambda>(res, ds, os, i). length ds - i)") auto

declare mul_rows.simps [simp del]

definition mul :: "BigInt \<Rightarrow> BigInt \<Rightarrow> error + BigInt" where
  "mul x y =
     (case mul_rows (replicate (length (digits x) + length (digits y)) 0)
                    (digits x) (digits y) 0 of
        Inl e \<Rightarrow> Inl e
      | Inr res \<Rightarrow> Inr (trim \<lparr>digits = res, negative = (negative x \<noteq> negative y)\<rparr>))"

section \<open>Bitwise operations\<close>

text \<open>\<^verbatim>\<open>operator&\<close>: \<open>n\<close> is the smaller size, every word is pushed to an empty result.\<close>

function and_loop :: "u32 list \<Rightarrow> u32 list \<Rightarrow> nat \<Rightarrow> nat \<Rightarrow> u32 list \<Rightarrow> u32 list" where
  "and_loop ds os n i acc =
     (if i < n then and_loop ds os n (i + 1) (acc @ [ds ! i AND os ! i]) else acc)"
  by pat_completeness auto
termination
  by (relation "measure (\<lambda>(ds, os, n, i, acc). n - i)") auto

declare and_loop.simps [simp del]

definition band :: "BigInt \<Rightarrow> BigInt \<Rightarrow> BigInt" where
  "band x y =
     (let n = min (length (digits x)) (length (digits y))
      in trim (BigInt_default\<lparr>digits := and_loop (digits x) (digits y) n 0 []\<rparr>))"

text \<open>\<^verbatim>\<open>operator|\<close>: \<open>n\<close> is the larger size, a missing word is \<open>0\<close>.\<close>

function or_loop :: "u32 list \<Rightarrow> u32 list \<Rightarrow> nat \<Rightarrow> nat \<Rightarrow> u32 list \<Rightarrow> u32 list" where
  "or_loop ds os n i acc =
     (if i < n
      then (let a = (if i < length ds then ds ! i else 0);
                b = (if i < length os then os ! i else 0)
            in or_loop ds os n (i + 1) (acc @ [a OR b]))
      else acc)"
  by pat_completeness auto
termination
  by (relation "measure (\<lambda>(ds, os, n, i, acc). n - i)") auto

declare or_loop.simps [simp del]

definition bor :: "BigInt \<Rightarrow> BigInt \<Rightarrow> BigInt" where
  "bor x y =
     (let n = max (length (digits x)) (length (digits y))
      in trim (BigInt_default\<lparr>digits := or_loop (digits x) (digits y) n 0 []\<rparr>))"

section \<open>Shifts\<close>

text \<open>
  The loop of \<^verbatim>\<open>operator<<\<close> over the words from \<open>word_shift\<close> up; \<open>carry\<close> is a
  \<open>uint32_t\<close>, \<open>current\<close> a \<open>uint64_t\<close>. The shift count is an \<open>int\<close> in the source
  and is never negative at any call; it is a \<open>nat\<close> here.
\<close>

function shl_loop :: "u32 list \<Rightarrow> nat \<Rightarrow> nat \<Rightarrow> u32 \<Rightarrow> u32 list \<times> u32" where
  "shl_loop ds bit_shift i carry =
     (if i < length ds
      then (let current = push_bit bit_shift (ucast (ds ! i) :: u64) OR ucast carry
            in shl_loop (ds[i := lo32 current]) bit_shift (i + 1) (ucast (drop_bit 32 current)))
      else (ds, carry))"
  by pat_completeness auto
termination
  by (relation "measure (\<lambda>(ds, bit_shift, i, carry). length ds - i)") auto

declare shl_loop.simps [simp del]

definition shl :: "BigInt \<Rightarrow> nat \<Rightarrow> BigInt" where
  "shl x shift =
     (if isZero x \<or> shift = 0 then x
      else (let word_shift = shift div 32;
                bit_shift = shift mod 32;
                ds0 = replicate word_shift 0 @ digits x;
                (ds1, carry) = shl_loop ds0 bit_shift word_shift 0;
                ds2 = (if carry \<noteq> 0 then ds1 @ [carry] else ds1)
            in trim (x\<lparr>digits := ds2\<rparr>)))"

text \<open>
  The loop of \<^verbatim>\<open>operator>>\<close> from the top word down (the counter is \<open>i + 1\<close>):
  the bits shifted out of a word are the carry into the next lower one.
\<close>

fun shr_loop :: "u32 list \<Rightarrow> nat \<Rightarrow> nat \<Rightarrow> u32 \<Rightarrow> u32 list" where
  "shr_loop ds bit_shift 0 carry = ds"
| "shr_loop ds bit_shift (Suc i) carry =
     (let current = push_bit 32 (ucast carry :: u64) OR ucast (ds ! i)
      in shr_loop (ds[i := lo32 (drop_bit bit_shift current)]) bit_shift i
           (ucast (current AND (push_bit bit_shift 1 - 1))))"

definition shr :: "BigInt \<Rightarrow> nat \<Rightarrow> BigInt" where
  "shr x shift =
     (if isZero x \<or> shift = 0 then x
      else (let word_shift = shift div 32;
                bit_shift = shift mod 32
            in if word_shift \<ge> length (digits x) then BigInt_of_int 0
               else (let ds0 = drop word_shift (digits x)
                     in trim (x\<lparr>digits := shr_loop ds0 bit_shift (length ds0) 0\<rparr>))))"

section \<open>Decimal output\<close>






section \<open>Decimal input\<close>

text \<open>
  \<^verbatim>\<open>c - '0'\<close> as an \<open>int\<close>: \<open>char\<close> is signed on the platforms of the source's
  compiler (\<^verbatim>\<open>__builtin_clz\<close> is GCC's), so a byte above 127 is negative.
\<close>

definition char_minus_0 :: "char \<Rightarrow> u32" where
  "char_minus_0 c =
     (let n = (of_char c :: nat)
      in (if n < 128 then of_nat n else of_nat n - 256) - 48)"

text \<open>\<^verbatim>\<open>while (str.size() > 1 && str[0] == '0') str.erase(0, 1);\<close>\<close>

fun strip_zeros :: "string \<Rightarrow> string" where
  "strip_zeros (c # c' # cs) =
     (if c = CHR ''0'' then strip_zeros (c' # cs) else c # c' # cs)"
| "strip_zeros s = s"

text \<open>
  \<^verbatim>\<open>for (char c : str) result = result * 10 + BigInt(c - '0');\<close>
  No character is checked.
\<close>

fun parse_loop :: "BigInt \<Rightarrow> string \<Rightarrow> (error + BigInt) option" where
  "parse_loop result [] = Some (Inr result)"
| "parse_loop result (c # cs) =
     (case mul result (BigInt_of_int 10) of
        Inl e \<Rightarrow> Some (Inl e)
      | Inr p \<Rightarrow>
          (case add p (BigInt_of_int (char_minus_0 c)) of
             None \<Rightarrow> None
           | Some r \<Rightarrow> parse_loop r cs))"

text \<open>
  \<^verbatim>\<open>BigInt(const std::string &s)\<close>. \<^verbatim>\<open>str[0]\<close> of an empty string is the
  terminating \<open>'\0'\<close>, so the empty string takes the branch without a sign. The sign
  flag is set from the first character alone, and only the words of \<open>result\<close> are kept.
\<close>

definition BigInt_of_string :: "string \<Rightarrow> (error + BigInt) option" where
  "BigInt_of_string s =
     (let (ng, str) = (case s of
                         [] \<Rightarrow> (False, s)
                       | c # rest \<Rightarrow> if c = CHR ''-'' then (True, rest) else (False, s));
          str' = strip_zeros str
      in case parse_loop (BigInt_of_int 0) str' of
           None \<Rightarrow> None
         | Some (Inl e) \<Rightarrow> Some (Inl e)
         | Some (Inr result) \<Rightarrow> Some (Inr \<lparr>digits = digits result, negative = ng\<rparr>))"

section \<open>Division\<close>

text \<open>
  GCC's \<^verbatim>\<open>__builtin_clz(x)\<close>: the number of leading 0-bits of \<open>x\<close>, counted from the
  most significant bit; the result is undefined for \<open>x = 0\<close>, which the caller below
  turns into \<open>Undefined\<close>. \<open>clz_from w k\<close> counts the zero bits below position \<open>k\<close>
  down to the first set bit.
\<close>

fun clz_from :: "u32 \<Rightarrow> nat \<Rightarrow> nat" where
  "clz_from w 0 = 0"
| "clz_from w (Suc k) = (if bit w k then 0 else Suc (clz_from w k))"

definition builtin_clz :: "u32 \<Rightarrow> nat" where
  "builtin_clz w = clz_from w 32"

text \<open>\<^verbatim>\<open>int norm = 32 - __builtin_clz(divisor.digits.back());\<close>\<close>

definition norm_of :: "BigInt \<Rightarrow> nat" where
  "norm_of divisor = 32 - builtin_clz (last (digits divisor))"

text \<open>
  The correction loop
  \<^verbatim>\<open>while (remainder < mult) { --qguess; mult = divisor * uint32_t(qguess); mult <<= 32 * i; }\<close>
  with \<open>qguess\<close> a \<open>uint64_t\<close>. Nothing in the loop bounds the number of rounds, so a
  run that never leaves it is \<open>None\<close>.
\<close>

partial_function (option) correct_loop ::
  "BigInt \<Rightarrow> BigInt \<Rightarrow> nat \<Rightarrow> u64 \<Rightarrow> BigInt \<Rightarrow> (error + u64 \<times> BigInt) option" where
  "correct_loop remainder divisor i qguess mult =
     (if lt remainder mult
      then (let qguess' = qguess - 1
            in case mul divisor (BigInt_of_uint32 (ucast qguess')) of
                 Inl e \<Rightarrow> Some (Inl e)
               | Inr mult' \<Rightarrow> correct_loop remainder divisor i qguess' (shl mult' (32 * i)))
      else Some (Inr (qguess, mult)))"

declare correct_loop.simps [code]

text \<open>
  The long-division loop \<^verbatim>\<open>for (int i = n - m; i >= 0; --i)\<close>; the counter is
  \<open>i + 1\<close>. \<open>qd\<close> is \<^verbatim>\<open>quotient.digits\<close>, \<open>m\<close> the size of the shifted divisor.
  The read of \<open>r_hi\<close> is guarded by the source, the read of \<open>r_lo\<close> at \<open>i + m - 1\<close>
  is not.
\<close>

fun div_loop ::
  "BigInt \<Rightarrow> BigInt \<Rightarrow> u32 list \<Rightarrow> nat \<Rightarrow> nat \<Rightarrow> (error + u32 list \<times> BigInt) option" where
  "div_loop remainder divisor qd m 0 = Some (Inr (qd, remainder))"
| "div_loop remainder divisor qd m (Suc i) =
     (if i + m = 0 \<or> length (digits remainder) \<le> i + m - 1
      then Some (Inl OutOfBounds)
      else if digits divisor = [] then Some (Inl OutOfBounds)
      else if last (digits divisor) = 0 then Some (Inl Undefined)
      else
        (let r_hi = (if i + m < length (digits remainder)
                     then ucast (digits remainder ! (i + m)) else 0) :: u64;
             r_lo = ucast (digits remainder ! (i + m - 1)) :: u64;
             numerator = push_bit 32 r_hi + r_lo;
             denominator = ucast (last (digits divisor)) :: u64;
             qguess0 = numerator div denominator;
             qguess = (if qguess0 > 0xFFFFFFFF then 0xFFFFFFFF else qguess0)
         in case mul divisor (BigInt_of_uint32 (ucast qguess)) of
              Inl e \<Rightarrow> Some (Inl e)
            | Inr mult \<Rightarrow>
                (case correct_loop remainder divisor i qguess (shl mult (32 * i)) of
                   None \<Rightarrow> None
                 | Some (Inl e) \<Rightarrow> Some (Inl e)
                 | Some (Inr (qguess', mult')) \<Rightarrow>
                     (if length qd \<le> i then Some (Inl OutOfBounds)
                      else case sub remainder mult' of
                             None \<Rightarrow> None
                           | Some remainder' \<Rightarrow>
                               div_loop remainder' divisor (qd[i := ucast qguess']) m i))))"

text \<open>
  \<^verbatim>\<open>static void divmod(const BigInt &a, const BigInt &b, BigInt &quotient, BigInt &remainder)\<close>:
  the two outputs are returned as a pair. The size \<^verbatim>\<open>n - m + 1\<close> of the quotient is
  computed in \<^verbatim>\<open>size_t\<close>. For \<open>n + 1 = m\<close> it wraps to \<open>0\<close>; the loop counter
  \<^verbatim>\<open>static_cast<int>(n - m)\<close> is then \<open>-1\<close>, the loop is skipped and the quotient keeps
  no word. For \<open>n + 1 < m\<close> it wraps to a size of at least \<open>2^64 - m\<close>, above
  \<^verbatim>\<open>max_size()\<close>, and \<^verbatim>\<open>resize\<close> throws.
\<close>

definition divmod_big :: "BigInt \<Rightarrow> BigInt \<Rightarrow> (error + BigInt \<times> BigInt) option" where
  "divmod_big a b =
     (if isZero b then Some (Inl DivisionByZero)
      else if isZero a then Some (Inr (BigInt_of_int 0, BigInt_of_int 0))
      else
        (let remainder = abs_big a;
             divisor = abs_big b
         in if lt remainder divisor then Some (Inr (BigInt_of_int 0, a))
            else if last (digits divisor) = 0 then Some (Inl Undefined)
            else
              (let norm = norm_of divisor;
                   divisor = (if norm \<noteq> 0 then shl divisor norm else divisor);
                   remainder = (if norm \<noteq> 0 then shl remainder norm else remainder);
                   n = length (digits remainder);
                   m = length (digits divisor)
               in if n + 1 < m then Some (Inl LengthError)
                  else case div_loop remainder divisor (replicate (n + 1 - m) 0) m (n + 1 - m) of
                         None \<Rightarrow> None
                       | Some (Inl e) \<Rightarrow> Some (Inl e)
                       | Some (Inr (qd, remainder)) \<Rightarrow>
                           (let quotient = trim \<lparr>digits = qd, negative = False\<rparr>;
                                remainder = (if norm \<noteq> 0 then shr remainder norm else remainder);
                                quotient = quotient\<lparr>negative := (negative a \<noteq> negative b)\<rparr>;
                                remainder = remainder\<lparr>negative := negative a\<rparr>
                            in Some (Inr (trim quotient, trim remainder))))))"

text \<open>\<^verbatim>\<open>operator/\<close> and \<^verbatim>\<open>operator%\<close> keep one component of \<open>divmod\<close>.\<close>

definition div_big :: "BigInt \<Rightarrow> BigInt \<Rightarrow> (error + BigInt) option" where
  "div_big a b = map_option (map_sum id fst) (divmod_big a b)"

definition mod_big :: "BigInt \<Rightarrow> BigInt \<Rightarrow> (error + BigInt) option" where
  "mod_big a b = map_option (map_sum id snd) (divmod_big a b)"

section \<open>The integer a BigInt stands for\<close>

text \<open>
  The magnitude read in base \<open>2^32\<close>, the signed value, and the canonical form that
  \<open>trim\<close> establishes: at most one word, or a non-zero most significant word.
\<close>

definition base :: nat where
  "base = 2 ^ 32"

fun val_digits :: "u32 list \<Rightarrow> nat" where
  "val_digits [] = 0"
| "val_digits (d # ds) = unat d + base * val_digits ds"

definition int_of :: "BigInt \<Rightarrow> int" where
  "int_of x = (if negative x then - int (val_digits (digits x)) else int (val_digits (digits x)))"

definition canonical :: "BigInt \<Rightarrow> bool" where
  "canonical x \<longleftrightarrow> length (digits x) \<le> 1 \<or> last (digits x) \<noteq> 0"

section \<open>Properties of the operations\<close>

subsection \<open>Machine words as numbers\<close>

lemma base_pos: "0 < base"
  by (simp add: base_def)

lemma base_gt1: "1 < base"
  by (simp add: base_def)

lemma unat32_lt: "unat (w::u32) < base"
  using unsigned_less [of w, where 'a = nat] by (simp add: base_def)

lemma unat32_le: "unat (w::u32) \<le> base - 1"
  using unat32_lt [of w] by simp

lemma base_sq: "base * base = 2 ^ 64"
  by (simp add: base_def)

lemma unat64_lt: "unat (w::u64) < base * base"
  using unsigned_less [of w, where 'a = nat] by (simp add: base_def)

lemma unat_lo32: "unat (lo32 s) = unat s mod base"
proof -
  have m: "(0xFFFFFFFF :: u64) = mask 32"
    by (simp add: mask_eq_exp_minus_1)
  show ?thesis
    by (simp add: lo32_def base_def m unsigned_ucast_eq unsigned_and_eq unsigned_take_bit_eq
        take_bit_eq_mod unat_mod flip: take_bit_eq_mask)
qed

lemma unat_drop32: "unat (drop_bit 32 (s::u64)) = unat s div base"
  by (simp add: drop_bit_eq_div unat_div base_def)

lemma unat_ucast32: "unat (ucast (w::u32) :: u64) = unat w"
proof -
  have "unat w < 2 ^ 64" using unat32_lt [of w] by (simp add: base_def)
  then show ?thesis by (simp add: unsigned_ucast_eq take_bit_nat_eq_self)
qed

lemma unat_add64: "unat a + unat b < base * base \<Longrightarrow> unat (a + b :: u64) = unat a + unat b"
  by (simp add: unat_add_lem [THEN iffD1] base_def)

lemma unat_mult64: "unat a * unat b < base * base \<Longrightarrow> unat (a * b :: u64) = unat a * unat b"
  by (simp add: unat_mult_lem [THEN iffD1] base_def)

lemma unat_down32: "unat s < base \<Longrightarrow> unat (ucast (s::u64) :: u32) = unat s"
  by (simp add: unsigned_ucast_eq take_bit_nat_eq_self base_def)

lemma unat_push64: "unat r * 2 ^ n < 2 ^ 64 \<Longrightarrow> unat (push_bit n (r::u64)) = unat r * 2 ^ n"
proof -
  assume a: "unat r * 2 ^ n < 2 ^ 64"
  have "unat (push_bit n r) = take_bit 64 (push_bit n (unat r))"
    by (simp add: unsigned_push_bit_eq)
  also have "\<dots> = push_bit n (unat r)"
    using a by (simp add: take_bit_nat_eq_self push_bit_eq_mult)
  finally show ?thesis by (simp add: push_bit_eq_mult)
qed

lemma nat_or_push: "c < 2 ^ bs \<Longrightarrow> push_bit bs x OR c = x * 2 ^ bs + (c::nat)"
proof -
  assume c: "c < 2 ^ bs"
  have "\<not> bit (push_bit bs x) n \<or> \<not> bit c n" for n
  proof (cases "n < bs")
    case True
    then show ?thesis by (simp add: bit_push_bit_iff)
  next
    case False
    then have "(2::nat) ^ bs \<le> 2 ^ n" by simp
    with c have "c < 2 ^ n" by (rule less_le_trans)
    then have "c div 2 ^ n = 0" by (rule div_less)
    then show ?thesis by (simp add: bit_iff_odd)
  qed
  then have "push_bit bs x + c = push_bit bs x OR c"
    by (rule disjunctive_add)
  then show ?thesis by (simp add: push_bit_eq_mult)
qed

lemma unat_shl_word:
  assumes "unat c < 2 ^ bs" "bs < 32"
  shows "unat (push_bit bs (ucast (d::u32) :: u64) OR ucast (c::u32)) = unat d * 2 ^ bs + unat c"
proof -
  have "(2::nat) ^ bs < 2 ^ 32"
    using assms(2) by (intro power_strict_increasing) auto
  then have "unat d * 2 ^ bs < 2 ^ 32 * 2 ^ 32"
    using unat32_lt [of d]
    by (intro mult_strict_mono) (auto simp: base_def)
  then have "unat (ucast d :: u64) * 2 ^ bs < 2 ^ 64"
    by (simp add: unat_ucast32)
  then have "unat (push_bit bs (ucast d :: u64)) = unat (ucast d :: u64) * 2 ^ bs"
    by (rule unat_push64)
  then have e: "unat (push_bit bs (ucast d :: u64)) = push_bit bs (unat d)"
    by (simp only: unat_ucast32 push_bit_eq_mult)
  have "unat (push_bit bs (ucast d :: u64) OR ucast c) = push_bit bs (unat d) OR unat c"
    by (simp only: unsigned_or_eq e unat_ucast32)
  also have "\<dots> = unat d * 2 ^ bs + unat c"
    by (rule nat_or_push) (rule assms(1))
  finally show ?thesis .
qed

lemma unat_and_low: "unat ((c :: u64) AND (push_bit bs 1 - 1)) = unat c mod 2 ^ bs"
proof -
  have "(push_bit bs 1 - 1 :: u64) = mask bs"
    by (simp add: push_bit_eq_mult mask_eq_exp_minus_1)
  then show ?thesis
    by (metis take_bit_eq_mask take_bit_eq_mod unsigned_take_bit_eq)
qed

lemma unat_shr_word:
  "unat (push_bit 32 (ucast (c::u32) :: u64) OR ucast (d::u32)) = unat c * base + unat d"
proof -
  have "unat (ucast c :: u64) * 2 ^ 32 < 2 ^ 64"
    using unat32_lt [of c] by (simp add: unat_ucast32 base_def)
  then have "unat (push_bit 32 (ucast c :: u64)) = unat (ucast c :: u64) * 2 ^ 32"
    by (rule unat_push64)
  then have e: "unat (push_bit 32 (ucast c :: u64)) = push_bit 32 (unat c)"
    by (simp only: unat_ucast32 push_bit_eq_mult)
  have "unat (push_bit 32 (ucast c :: u64) OR ucast d) = push_bit 32 (unat c) OR unat d"
    by (simp only: unsigned_or_eq e unat_ucast32)
  also have "\<dots> = unat c * 2 ^ 32 + unat d"
    by (rule nat_or_push) (use unat32_lt [of d] in \<open>simp add: base_def\<close>)
  finally show ?thesis by (simp add: base_def)
qed

subsection \<open>The value of a word list\<close>

lemma val_digits_append:
  "val_digits (xs @ ys) = val_digits xs + base ^ length xs * val_digits ys"
  by (induction xs) (simp_all add: algebra_simps)

lemma val_digits_lt: "val_digits xs < base ^ length xs"
proof (induction xs)
  case Nil
  show ?case by simp
next
  case (Cons d ds)
  have "unat d + base * val_digits ds \<le> (base - 1) + base * (base ^ length ds - 1)"
    using unat32_le [of d] Cons by (intro add_mono mult_le_mono2) simp_all
  also have "\<dots> < base * base ^ length ds"
    using base_pos by (simp add: algebra_simps)
  finally show ?case by simp
qed

lemma val_digits_replicate0: "val_digits (replicate n 0) = 0"
  by (induction n) simp_all

lemma val_digits_snoc: "val_digits (xs @ [d]) = val_digits xs + base ^ length xs * unat d"
  by (simp add: val_digits_append)

lemma val_digits_ge:
  assumes "ds \<noteq> []" "last ds \<noteq> 0"
  shows "base ^ (length ds - 1) \<le> val_digits ds"
proof -
  from assms(1) have ds: "ds = butlast ds @ [last ds]" by simp
  have "unat (last ds) \<noteq> 0" using assms(2) by (simp add: unat_eq_0)
  then have "1 \<le> unat (last ds)" by simp
  then have "base ^ length (butlast ds) * 1 \<le> base ^ length (butlast ds) * unat (last ds)"
    by (rule mult_le_mono2)
  also have "\<dots> \<le> val_digits (butlast ds @ [last ds])"
    by (simp add: val_digits_snoc)
  finally show ?thesis using ds by simp
qed

lemma val_digits_trim: "val_digits (trim_digits ds) = val_digits ds"
proof (induction ds rule: trim_digits.induct)
  case (1 ds)
  show ?case
  proof (cases "length ds > 1 \<and> last ds = 0")
    case True
    then have ds: "ds = butlast ds @ [0]"
      by (metis append_butlast_last_id length_greater_0_conv less_trans zero_less_one)
    have "val_digits (butlast ds @ [0]) = val_digits (butlast ds)"
      by (simp add: val_digits_snoc)
    with ds have "val_digits ds = val_digits (butlast ds)" by simp
    moreover from True have "trim_digits ds = trim_digits (butlast ds)"
      by (subst trim_digits.simps) simp
    ultimately show ?thesis using 1 True by simp
  next
    case False
    then show ?thesis by (subst trim_digits.simps) auto
  qed
qed

lemma trim_digits_nonempty: "ds \<noteq> [] \<Longrightarrow> trim_digits ds \<noteq> []"
proof (induction ds rule: trim_digits.induct)
  case (1 ds)
  show ?case
  proof (cases "length ds > 1 \<and> last ds = 0")
    case True
    then have "butlast ds \<noteq> []"
      by (cases ds rule: rev_cases) auto
    moreover from True have "trim_digits ds = trim_digits (butlast ds)"
      by (subst trim_digits.simps) simp
    ultimately show ?thesis using 1 True by simp
  next
    case False
    with 1 show ?thesis by (subst trim_digits.simps) auto
  qed
qed

lemma trim_digits_length: "length (trim_digits ds) \<le> length ds"
proof (induction ds rule: trim_digits.induct)
  case (1 ds)
  show ?case
  proof (cases "length ds > 1 \<and> last ds = 0")
    case True
    then have "trim_digits ds = trim_digits (butlast ds)"
      by (subst trim_digits.simps) simp
    with 1 True show ?thesis by simp
  next
    case False
    then show ?thesis by (subst trim_digits.simps) auto
  qed
qed

lemma trim_digits_id: "length ds \<le> 1 \<or> last ds \<noteq> 0 \<Longrightarrow> trim_digits ds = ds"
  by (subst trim_digits.simps) auto

lemma trim_digits_canonical: "length (trim_digits ds) \<le> 1 \<or> last (trim_digits ds) \<noteq> 0"
proof (induction ds rule: trim_digits.induct)
  case (1 ds)
  show ?case
  proof (cases "length ds > 1 \<and> last ds = 0")
    case True
    then have "trim_digits ds = trim_digits (butlast ds)"
      by (subst trim_digits.simps) simp
    with 1 True show ?thesis by simp
  next
    case False
    then have "trim_digits ds = ds"
      by (subst trim_digits.simps) auto
    with False show ?thesis by auto
  qed
qed

subsection \<open>The addition loop\<close>

lemma val_digits_drop:
  "val_digits (drop i ds) =
     (if i < length ds then unat (ds ! i) else 0) + base * val_digits (drop (Suc i) ds)"
proof (cases "i < length ds")
  case True
  then have "drop i ds = ds ! i # drop (Suc i) ds"
    by (simp add: Cons_nth_drop_Suc)
  with True show ?thesis by simp
next
  case False
  then show ?thesis by simp
qed







subsection \<open>The subtraction loop\<close>

definition sub_diff :: "u32 list \<Rightarrow> u32 list \<Rightarrow> nat \<Rightarrow> u64 \<Rightarrow> u64" where
  "sub_diff ds os i borrow =
     (let d0 = ucast (ds ! i) - borrow
      in if i < length os then d0 - ucast (os ! i) else d0)"

lemma sub_loop_step:
  "sub_loop ds os i borrow acc =
     (if i < length ds
      then sub_loop ds os (i + 1) (if sub_diff ds os i borrow <s 0 then 1 else 0)
             (acc @ [lo32 (if sub_diff ds os i borrow <s 0
                           then sub_diff ds os i borrow + push_bit 32 1
                           else sub_diff ds os i borrow)])
      else acc)"
  by (subst sub_loop.simps) (simp add: sub_diff_def Let_def)

definition sub_t :: "u32 list \<Rightarrow> u32 list \<Rightarrow> nat \<Rightarrow> u64 \<Rightarrow> int" where
  "sub_t ds os i borrow =
     uint (ds ! i) - uint borrow - (if i < length os then uint (os ! i) else 0)"

lemma sub_diff_of_int: "sub_diff ds os i b = word_of_int (sub_t ds os i b)"
proof -
  have u: "(ucast (w::u32) :: u64) = word_of_int (uint w)" for w
    by simp
  have b: "b = word_of_int (uint b)"
    by simp
  show ?thesis
  proof (cases "i < length os")
    case True
    then have "sub_diff ds os i b = ucast (ds ! i) - b - ucast (os ! i)"
      by (simp add: sub_diff_def)
    also have "\<dots> = word_of_int (uint (ds ! i)) - word_of_int (uint b) - word_of_int (uint (os ! i))"
      by (simp only: u [symmetric] b [symmetric])
    also have "\<dots> = word_of_int (uint (ds ! i) - uint b - uint (os ! i))"
      by (simp only: word_of_int_hom_syms)
    finally show ?thesis using True by (simp only: sub_t_def if_True)
  next
    case False
    then have "sub_diff ds os i b = ucast (ds ! i) - b"
      by (simp add: sub_diff_def)
    also have "\<dots> = word_of_int (uint (ds ! i)) - word_of_int (uint b)"
      by (simp only: u [symmetric] b [symmetric])
    also have "\<dots> = word_of_int (uint (ds ! i) - uint b)"
      by (simp only: word_of_int_hom_syms)
    finally show ?thesis using False by (simp only: sub_t_def if_False diff_0_right)
  qed
qed

lemma uint32_lt: "uint (w::u32) < int base"
proof -
  have "int (unat w) < int base" using unat32_lt [of w] by (simp only: of_nat_less_iff)
  then show ?thesis by (simp only: uint_nat)
qed

lemma sub_t_range:
  assumes "unat b \<le> 1"
  shows "- int base \<le> sub_t ds os i b" "sub_t ds os i b < int base"
proof -
  have "int (unat b) \<le> int 1" using assms by (simp only: of_nat_le_iff)
  then have b: "uint b \<le> 1" "0 \<le> uint b" by (simp_all only: uint_nat of_nat_1 of_nat_0_le_iff)
  have d: "0 \<le> uint (ds ! i)" "uint (ds ! i) < int base"
    using uint32_lt [of "ds ! i"] by simp_all
  have o: "0 \<le> uint (os ! i)" "uint (os ! i) < int base"
    using uint32_lt [of "os ! i"] by simp_all
  have p: "1 < int base" using base_gt1 by simp
  show "- int base \<le> sub_t ds os i b"
  proof (cases "i < length os")
    case True
    then have "sub_t ds os i b = uint (ds ! i) - uint b - uint (os ! i)"
      by (simp only: sub_t_def if_True)
    with b d o p show ?thesis by linarith
  next
    case False
    then have "sub_t ds os i b = uint (ds ! i) - uint b - 0"
      by (simp only: sub_t_def if_False)
    with b d o p show ?thesis by linarith
  qed
  show "sub_t ds os i b < int base"
  proof (cases "i < length os")
    case True
    then have "sub_t ds os i b = uint (ds ! i) - uint b - uint (os ! i)"
      by (simp only: sub_t_def if_True)
    with b d o p show ?thesis by linarith
  next
    case False
    then have "sub_t ds os i b = uint (ds ! i) - uint b - 0"
      by (simp only: sub_t_def if_False)
    with b d o p show ?thesis by linarith
  qed
qed

lemma sint_sub_diff:
  assumes "unat b \<le> 1"
  shows "sint (sub_diff ds os i b) = sub_t ds os i b"
proof -
  have "- (2 ^ 63) \<le> sub_t ds os i b" "sub_t ds os i b < 2 ^ 63"
    using sub_t_range [OF assms, of ds os i] by (simp_all add: base_def)
  then have "signed_take_bit 63 (sub_t ds os i b) = sub_t ds os i b"
    by (simp add: signed_take_bit_int_eq_self)
  then show ?thesis
    by (simp add: sub_diff_of_int sint_sbintrunc')
qed

lemma sub_diff_neg:
  assumes "unat b \<le> 1"
  shows "sub_diff ds os i b <s 0 \<longleftrightarrow> sub_t ds os i b < 0"
  by (simp add: word_sless_alt sint_sub_diff [OF assms])

lemma sub_word:
  assumes "unat b \<le> 1"
  shows "int (unat (lo32 (if sub_diff ds os i b <s 0
                          then sub_diff ds os i b + push_bit 32 1
                          else sub_diff ds os i b)))
         = sub_t ds os i b mod int base"
proof -
  let ?t = "sub_t ds os i b"
  note r = sub_t_range [OF assms, of ds os i]
  have p: "(push_bit 32 1 :: u64) = word_of_int (int base)"
    by (simp add: base_def)
  have un: "unat (word_of_int k :: u64) = nat k" if "0 \<le> k" "k < int base" for k
  proof -
    have "k < 2 ^ 64" using that(2) by (simp add: base_def)
    then have "k mod 2 ^ 64 = k" using that(1) by simp
    then show ?thesis by (simp add: unat_eq_nat_uint uint_word_of_int)
  qed
  show ?thesis
  proof (cases "?t < 0")
    case True
    then have k: "0 \<le> ?t + int base" "?t + int base < int base" using r by simp_all
    have "sub_diff ds os i b + push_bit 32 1 = word_of_int (?t + int base)"
      unfolding p sub_diff_of_int by simp
    then have "unat (sub_diff ds os i b + push_bit 32 1) = nat (?t + int base)"
      using un [OF k] by simp
    moreover have "?t mod int base = ?t + int base"
      using True r by (metis k(1) k(2) mod_add_self2 mod_pos_pos_trivial)
    ultimately show ?thesis
      using True k by (simp add: sub_diff_neg [OF assms] unat_lo32)
  next
    case False
    then have k: "0 \<le> ?t" "?t < int base" using r by simp_all
    have "unat (sub_diff ds os i b) = nat ?t"
      unfolding sub_diff_of_int using un [OF k] by simp
    moreover have "?t mod int base = ?t"
      using k by simp
    ultimately show ?thesis
      using False k by (simp add: sub_diff_neg [OF assms] unat_lo32)
  qed
qed

lemma sub_loop_length:
  "length (sub_loop ds os i b acc) = length acc + (length ds - i)"
proof (induction "length ds - i" arbitrary: i b acc)
  case 0
  then show ?case by (subst sub_loop_step) simp
next
  case (Suc k)
  then have i: "i < length ds" and k: "k = length ds - Suc i" by simp_all
  have e: "Suc (length ds - Suc i) = length ds - i" using i by arith
  show ?case
    by (subst sub_loop_step) (simp add: i Suc.hyps(1) [OF k] e del: push_bit_of_1)
qed

lemma int_mod_mult_split:
  fixes t z B M :: int
  assumes "0 \<le> M"
  shows "(t + B * z) mod (B * M) = t mod B + B * ((z + t div B) mod M)"
proof -
  have "(t + B * z) mod (B * M) = B * ((t + B * z) div B mod M) + (t + B * z) mod B"
    using assms by (rule zmod_zmult2_eq)
  moreover have "(t + B * z) mod B = t mod B" by simp
  moreover have "(t + B * z) div B = z + t div B" if "B \<noteq> 0"
    using that by (simp add: add.commute)
  ultimately show ?thesis by (cases "B = 0") simp_all
qed

lemma sub_t_div:
  assumes "unat b \<le> 1"
  shows "sub_t ds os i b div int base = (if sub_t ds os i b < 0 then - 1 else 0)"
proof (cases "sub_t ds os i b < 0")
  case True
  have "sub_t ds os i b div int base = - 1"
  proof (rule int_div_pos_eq [of _ _ _ "sub_t ds os i b + int base"])
    show "sub_t ds os i b = int base * - 1 + (sub_t ds os i b + int base)" by simp
    show "0 \<le> sub_t ds os i b + int base" using sub_t_range(1) [OF assms, of ds os i] by simp
    show "sub_t ds os i b + int base < int base" using True by simp
  qed
  with True show ?thesis by simp
next
  case False
  then have "sub_t ds os i b div int base = 0"
    using sub_t_range(2) [OF assms, of ds os i] by simp
  with False show ?thesis by simp
qed

lemma sub_loop_val:
  "unat b \<le> 1 \<Longrightarrow> i \<le> length ds \<Longrightarrow>
   int (val_digits (sub_loop ds os i b acc)) =
     int (val_digits acc) + int (base ^ length acc) *
       ((int (val_digits (drop i ds)) - int (val_digits (drop i os)) - int (unat b))
          mod int (base ^ (length ds - i)))"
proof (induction "length ds - i" arbitrary: i b acc)
  case 0
  then show ?case by (subst sub_loop_step) simp
next
  case (Suc k)
  then have i: "i < length ds" and k: "k = length ds - Suc i" by simp_all
  let ?t = "sub_t ds os i b"
  let ?b' = "(if sub_diff ds os i b <s 0 then 1 else 0) :: u64"
  let ?w = "lo32 (if sub_diff ds os i b <s 0 then sub_diff ds os i b + push_bit 32 1
                  else sub_diff ds os i b)"
  define X' where "X' = int (val_digits (drop (Suc i) ds))"
  define Y' where "Y' = int (val_digits (drop (Suc i) os))"
  define M where "M = int (base ^ k)"
  define A where "A = int (base ^ length acc)"
  have b': "unat ?b' \<le> 1" by simp
  have ub': "int (unat ?b') = - (?t div int base)"
    using sub_t_div [OF Suc.prems(1), of ds os i] sub_diff_neg [OF Suc.prems(1), of ds os i]
    by simp
  have w: "int (unat ?w) = ?t mod int base"
    by (rule sub_word [OF Suc.prems(1)])
  have X: "int (val_digits (drop i ds)) = uint (ds ! i) + int base * X'"
    using i by (simp add: val_digits_drop [of i ds] X'_def)
  have Y: "int (val_digits (drop i os)) = (if i < length os then uint (os ! i) else 0) + int base * Y'"
    by (simp add: val_digits_drop [of i os] Y'_def)
  have t: "int (val_digits (drop i ds)) - int (val_digits (drop i os)) - int (unat b)
           = ?t + int base * (X' - Y')"
    unfolding X Y sub_t_def by (simp add: algebra_simps)
  have "length ds - i = Suc k" using i k by arith
  then have Mk: "int (base ^ (length ds - i)) = int base * M"
    by (simp add: M_def)
  have M0: "0 \<le> M" by (simp add: M_def)
  have "int (val_digits (sub_loop ds os i b acc))
        = int (val_digits (sub_loop ds os (Suc i) ?b' (acc @ [?w])))"
    using i by (subst sub_loop_step) (simp del: push_bit_of_1)
  also have "\<dots> = int (val_digits (acc @ [?w])) + int (base ^ length (acc @ [?w])) *
       ((X' - Y' - int (unat ?b')) mod M)"
    unfolding X'_def Y'_def M_def
    using Suc.hyps(1) [OF k b', of "acc @ [?w]"] i k by simp
  also have "\<dots> = int (val_digits acc) + A * (?t mod int base)
        + A * int base * ((X' - Y' + ?t div int base) mod M)"
    unfolding ub' val_digits_snoc A_def
    by (simp only: of_nat_add of_nat_mult w length_append list.size power_add
        power_one_right of_nat_power) (simp add: algebra_simps)
  also have "\<dots> = int (val_digits acc) + A * ((?t + int base * (X' - Y')) mod (int base * M))"
    unfolding int_mod_mult_split [OF M0] by (simp add: algebra_simps)
  finally show ?case unfolding t Mk A_def .
qed

lemma sub_loop_correct:
  assumes "val_digits os \<le> val_digits ds"
  shows "val_digits (sub_loop ds os 0 0 []) = val_digits ds - val_digits os"
proof -
  have "int (val_digits (sub_loop ds os 0 0 []))
        = (int (val_digits ds) - int (val_digits os)) mod int (base ^ length ds)"
    using sub_loop_val [of 0 0 ds os "[]"] by simp
  also have "\<dots> = int (val_digits ds) - int (val_digits os)"
  proof (rule mod_pos_pos_trivial)
    show "0 \<le> int (val_digits ds) - int (val_digits os)" using assms by simp
    have "int (val_digits ds) < int (base ^ length ds)"
      using val_digits_lt [of ds] by (simp only: of_nat_less_iff)
    moreover have "0 \<le> int (val_digits os)" by simp
    ultimately show "int (val_digits ds) - int (val_digits os) < int (base ^ length ds)"
      by linarith
  qed
  finally show ?thesis using assms by linarith
qed

subsection \<open>Comparison of magnitudes\<close>

lemma val_digits_take_Suc:
  "k < length ds \<Longrightarrow> val_digits (take (Suc k) ds) = val_digits (take k ds) + base ^ k * unat (ds ! k)"
  by (simp add: take_Suc_conv_app_nth val_digits_snoc)

lemma lt_loop_val:
  "length ds = length os \<Longrightarrow> k \<le> length ds \<Longrightarrow>
   lt_loop ds os False k \<longleftrightarrow> val_digits (take k ds) < val_digits (take k os)"
proof (induction k)
  case 0
  show ?case by simp
next
  case (Suc k)
  then have k: "k < length ds" "k < length os" by simp_all
  let ?a = "val_digits (take k ds)" and ?b = "val_digits (take k os)"
  have la: "?a < base ^ k" using val_digits_lt [of "take k ds"] k by simp
  have lb: "?b < base ^ k" using val_digits_lt [of "take k os"] k by simp
  show ?case
  proof (cases "ds ! k = os ! k")
    case True
    with Suc k show ?thesis by (simp add: val_digits_take_Suc)
  next
    case False
    then have ne: "unat (ds ! k) \<noteq> unat (os ! k)" by (simp add: word_unat_eq_iff)
    have "?a + base ^ k * unat (ds ! k) < ?b + base ^ k * unat (os ! k)
          \<longleftrightarrow> unat (ds ! k) < unat (os ! k)"
    proof
      assume l: "unat (ds ! k) < unat (os ! k)"
      then have "Suc (unat (ds ! k)) \<le> unat (os ! k)" by simp
      then have "base ^ k * Suc (unat (ds ! k)) \<le> base ^ k * unat (os ! k)"
        by (rule mult_le_mono2)
      with la show "?a + base ^ k * unat (ds ! k) < ?b + base ^ k * unat (os ! k)" by simp
    next
      assume l: "?a + base ^ k * unat (ds ! k) < ?b + base ^ k * unat (os ! k)"
      show "unat (ds ! k) < unat (os ! k)"
      proof (rule ccontr)
        assume "\<not> unat (ds ! k) < unat (os ! k)"
        with ne have "Suc (unat (os ! k)) \<le> unat (ds ! k)" by simp
        then have "base ^ k * Suc (unat (os ! k)) \<le> base ^ k * unat (ds ! k)"
          by (rule mult_le_mono2)
        with lb l show False by simp
      qed
    qed
    with False k show ?thesis
      by (simp add: val_digits_take_Suc word_less_nat_alt)
  qed
qed

text \<open>Non-empty and canonical: the form of every magnitude the division works on.\<close>

definition proper :: "u32 list \<Rightarrow> bool" where
  "proper ds \<longleftrightarrow> ds \<noteq> [] \<and> (length ds = 1 \<or> last ds \<noteq> 0)"

lemma proper_trim: "ds \<noteq> [] \<Longrightarrow> proper (trim_digits ds)"
  using trim_digits_canonical [of ds] trim_digits_nonempty [of ds]
  by (auto simp: proper_def le_Suc_eq)

lemma proper_length_le:
  assumes "proper xs" "proper ys" "length xs < length ys"
  shows "val_digits xs < val_digits ys"
proof -
  from assms have "last ys \<noteq> 0" "ys \<noteq> []" by (auto simp: proper_def)
  then have "base ^ (length ys - 1) \<le> val_digits ys" by (rule val_digits_ge [rotated])
  moreover have "base ^ length xs \<le> base ^ (length ys - 1)"
    using assms(3) base_pos by (intro power_increasing) simp_all
  ultimately show ?thesis using val_digits_lt [of xs] by simp
qed

lemma lt_val:
  assumes "proper (digits x)" "proper (digits y)" "\<not> negative x" "\<not> negative y"
  shows "lt x y \<longleftrightarrow> val_digits (digits x) < val_digits (digits y)"
proof (cases "length (digits x) = length (digits y)")
  case True
  then show ?thesis
    using assms(3,4) lt_loop_val [of "digits x" "digits y" "length (digits x)"]
    by (simp add: lt_def)
next
  case False
  show ?thesis
  proof (cases "length (digits x) < length (digits y)")
    case True
    with proper_length_le [OF assms(1,2)] False assms(3,4) show ?thesis
      by (simp add: lt_def)
  next
    case g: False
    with False have "length (digits y) < length (digits x)" by simp
    from proper_length_le [OF assms(2,1) this] g False assms(3,4) show ?thesis
      by (simp add: lt_def)
  qed
qed

subsection \<open>Multiplication\<close>

lemma val_digits_update:
  assumes "k < length res"
  shows "val_digits (res[k := w]) + base ^ k * unat (res ! k) = val_digits res + base ^ k * unat w"
proof -
  have r: "res = take k res @ res ! k # drop (Suc k) res"
    using assms by (simp add: id_take_nth_drop)
  have u: "res[k := w] = take k res @ w # drop (Suc k) res"
    using assms by (simp add: upd_conv_take_nth_drop)
  have lk: "length (take k res) = k" using assms by simp
  have "val_digits res = val_digits (take k res) + base ^ k * (unat (res ! k) + base * val_digits (drop (Suc k) res))"
    by (subst r, simp only: val_digits_append lk val_digits.simps)
  moreover have "val_digits (res[k := w]) = val_digits (take k res) + base ^ k * (unat w + base * val_digits (drop (Suc k) res))"
    by (simp only: u val_digits_append lk val_digits.simps)
  ultimately show ?thesis by (simp add: algebra_simps)
qed

definition mul_sum :: "u32 list \<Rightarrow> u32 \<Rightarrow> u32 list \<Rightarrow> nat \<Rightarrow> nat \<Rightarrow> u64 \<Rightarrow> u64" where
  "mul_sum res d os i j carry =
     ucast (res ! (i + j)) + ucast d * 1 * (if j < length os then ucast (os ! j) else 0) + carry"

lemma mul_row_step:
  "mul_row res d os i j carry =
     (if j < length os \<or> carry \<noteq> 0
      then (if i + j < length res
            then mul_row (res[i + j := lo32 (mul_sum res d os i j carry)]) d os i (j + 1)
                   (drop_bit 32 (mul_sum res d os i j carry))
            else Inl OutOfBounds)
      else Inr res)"
  by (subst mul_row.simps) (simp add: mul_sum_def Let_def)

lemma unat_mul_sum:
  assumes "unat carry < base"
  shows "unat (mul_sum res d os i j carry) =
           unat (res ! (i + j)) + unat d * (if j < length os then unat (os ! j) else 0) + unat carry"
proof -
  define r where "r = unat (res ! (i + j))"
  define o' where "o' = (if j < length os then unat (os ! j) else 0)"
  have r: "r \<le> base - 1" unfolding r_def by (rule unat32_le)
  have d: "unat d \<le> base - 1" by (rule unat32_le)
  have o: "o' \<le> base - 1" unfolding o'_def using unat32_le [of "os ! j"] by simp
  have c: "unat carry \<le> base - 1" using assms by simp
  have "unat d * o' \<le> (base - 1) * (base - 1)"
    using d o by (rule mult_le_mono)
  then have bound: "r + unat d * o' + unat carry \<le> (base - 1) + (base - 1) * (base - 1) + (base - 1)"
    using r c by (intro add_mono)
  have "(base - 1) + (base - 1) * (base - 1) + (base - 1) < base * base"
    by (simp add: base_def)
  with bound have lt: "r + unat d * o' + unat carry < base * base" by simp
  have ow: "unat ((if j < length os then ucast (os ! j) else 0) :: u64) = o'"
    by (simp add: o'_def unat_ucast32)
  have m: "unat (ucast d * 1 * (if j < length os then ucast (os ! j) else 0) :: u64) = unat d * o'"
  proof -
    have "unat (ucast d :: u64) * unat ((if j < length os then ucast (os ! j) else 0) :: u64) < base * base"
      using lt by (simp only: ow unat_ucast32)
    then have "unat ((ucast d :: u64) * (if j < length os then ucast (os ! j) else 0)) = unat d * o'"
      by (simp only: unat_mult64 ow unat_ucast32)
    then show ?thesis by (simp only: mult_1_right)
  qed
  have a1: "unat (ucast (res ! (i + j)) + ucast d * 1 * (if j < length os then ucast (os ! j) else 0) :: u64)
            = r + unat d * o'"
  proof -
    have "unat (ucast (res ! (i + j)) :: u64)
          + unat (ucast d * 1 * (if j < length os then ucast (os ! j) else 0) :: u64) < base * base"
      using lt by (simp only: m unat_ucast32 r_def)
    then show ?thesis by (simp only: unat_add64 m unat_ucast32 r_def)
  qed
  have "unat (ucast (res ! (i + j)) + ucast d * 1 * (if j < length os then ucast (os ! j) else 0) :: u64)
        + unat carry < base * base"
    using lt by (simp only: a1)
  then have "unat (mul_sum res d os i j carry) = r + unat d * o' + unat carry"
    unfolding mul_sum_def by (simp only: unat_add64 a1)
  then show ?thesis by (simp only: r_def o'_def)
qed

lemma mul_sum_carry:
  "unat (drop_bit 32 (s :: u64)) < base"
proof -
  have "unat s div base < base"
    using unat64_lt [of s] by (simp add: less_mult_imp_div_less)
  then show ?thesis by (simp add: unat_drop32)
qed

lemma mul_row_correct:
  assumes "i + length os < length res"
    and "\<forall>k. i + length os \<le> k \<longrightarrow> k < length res \<longrightarrow> res ! k = 0"
    and "unat carry < base"
    and "j \<le> length os"
  shows "\<exists>res'. mul_row res d os i j carry = Inr res' \<and> length res' = length res \<and>
           val_digits res' = val_digits res
              + base ^ (i + j) * (unat d * val_digits (drop j os) + unat carry) \<and>
           (\<forall>k. i + length os < k \<longrightarrow> k < length res \<longrightarrow> res' ! k = 0)"
  using assms
proof (induction "length os - j" arbitrary: j res carry)
  case 0
  then have j: "j = length os" by simp
  show ?case
  proof (cases "carry = 0")
    case True
    with j have "mul_row res d os i j carry = Inr res"
      by (subst mul_row_step) simp
    with True j "0.prems"(2) show ?thesis by simp
  next
    case False
    let ?s = "mul_sum res d os i j carry"
    have z: "res ! (i + j) = 0" using "0.prems"(1,2) j by simp
    have us: "unat ?s = unat carry"
      using unat_mul_sum [OF "0.prems"(3), of res d os i j] z j by simp
    have w: "unat (lo32 ?s) = unat carry"
      using us "0.prems"(3) by (simp add: unat_lo32)
    have "unat (drop_bit 32 ?s) = 0"
      using us "0.prems"(3) by (simp add: unat_drop32)
    then have c': "drop_bit 32 ?s = 0" by (simp only: unat_eq_0)
    let ?res1 = "res[i + j := lo32 ?s]"
    have "mul_row res d os i j carry = mul_row ?res1 d os i (j + 1) 0"
      using False "0.prems"(1) j c' by (subst mul_row_step) simp
    also have "\<dots> = Inr ?res1"
      using j by (subst mul_row_step) simp
    finally have r: "mul_row res d os i j carry = Inr ?res1" .
    have "val_digits ?res1 + base ^ (i + j) * unat (res ! (i + j))
          = val_digits res + base ^ (i + j) * unat (lo32 ?s)"
      using "0.prems"(1) j by (intro val_digits_update) simp
    then have v: "val_digits ?res1 = val_digits res + base ^ (i + j) * unat carry"
      using z w by simp
    have "\<forall>k. i + length os < k \<longrightarrow> k < length res \<longrightarrow> ?res1 ! k = 0"
      using "0.prems"(2) j by simp
    with r v j show ?thesis by simp
  qed
next
  case (Suc n)
  then have j: "j < length os" and n: "n = length os - (j + 1)" by simp_all
  let ?s = "mul_sum res d os i j carry"
  let ?res1 = "res[i + j := lo32 ?s]"
  let ?c' = "drop_bit 32 ?s"
  have ij: "i + j < length res" using Suc.prems(1) j by simp
  have step: "mul_row res d os i j carry = mul_row ?res1 d os i (j + 1) ?c'"
    using j ij by (subst mul_row_step) simp
  have p1: "i + length os < length ?res1" using Suc.prems(1) by simp
  have p2: "\<forall>k. i + length os \<le> k \<longrightarrow> k < length ?res1 \<longrightarrow> ?res1 ! k = 0"
    using Suc.prems(2) j by simp
  have p3: "unat ?c' < base" by (rule mul_sum_carry)
  have p4: "j + 1 \<le> length os" using j by simp
  from Suc.hyps(1) [OF n p1 p2 p3 p4] obtain res' where res':
    "mul_row ?res1 d os i (j + 1) ?c' = Inr res'"
    "length res' = length ?res1"
    "val_digits res' = val_digits ?res1
        + base ^ (i + (j + 1)) * (unat d * val_digits (drop (j + 1) os) + unat ?c')"
    "\<forall>k. i + length os < k \<longrightarrow> k < length ?res1 \<longrightarrow> res' ! k = 0"
    by blast
  define V' where "V' = val_digits (drop (Suc j) os)"
  define r where "r = unat (res ! (i + j))"
  define w where "w = unat ?s mod base"
  define q where "q = unat ?s div base"
  define K where "K = base ^ (i + j)"
  have s: "w + base * q = r + unat d * unat (os ! j) + unat carry"
    using unat_mul_sum [OF Suc.prems(3), of res d os i j] j by (simp add: w_def q_def r_def)
  have upd: "val_digits ?res1 + K * r = val_digits res + K * w"
    unfolding K_def r_def w_def using val_digits_update [OF ij, of "lo32 ?s"]
    by (simp only: unat_lo32)
  have V: "val_digits (drop j os) = unat (os ! j) + base * V'"
    using j by (simp add: val_digits_drop [of j os] V'_def)
  have "val_digits res' + K * r = val_digits ?res1 + K * r + K * base * (unat d * V' + q)"
    using res'(3) by (simp add: K_def V'_def q_def unat_drop32)
  also have "\<dots> = val_digits res + K * (w + base * q + base * (unat d * V'))"
    unfolding upd by (simp add: algebra_simps)
  also have "\<dots> = val_digits res + K * (unat d * val_digits (drop j os) + unat carry) + K * r"
    unfolding s V by (simp add: algebra_simps)
  finally have "val_digits res' = val_digits res + K * (unat d * val_digits (drop j os) + unat carry)"
    by simp
  with step res'(1,2,4) show ?case by (simp add: K_def)
qed

lemma mul_rows_step:
  "mul_rows res ds os i =
     (if i < length ds
      then (case mul_row res (ds ! i) os i 0 0 of
              Inl e \<Rightarrow> Inl e
            | Inr res' \<Rightarrow> mul_rows res' ds os (i + 1))
      else Inr res)"
  by (subst mul_rows.simps) simp

lemma mul_rows_correct:
  assumes "length res = length ds + length os"
    and "\<forall>k. i + length os \<le> k \<longrightarrow> k < length res \<longrightarrow> res ! k = 0"
    and "i \<le> length ds"
  shows "\<exists>res'. mul_rows res ds os i = Inr res' \<and> length res' = length res \<and>
           val_digits res' = val_digits res + base ^ i * (val_digits (drop i ds) * val_digits os)"
  using assms
proof (induction "length ds - i" arbitrary: i res)
  case 0
  then have "mul_rows res ds os i = Inr res"
    by (subst mul_rows_step) simp
  with 0 show ?case by simp
next
  case (Suc n)
  then have i: "i < length ds" and n: "n = length ds - (i + 1)" by simp_all
  have q1: "i + length os < length res" using Suc.prems(1) i by simp
  from mul_row_correct [OF q1 Suc.prems(2), of 0 0 "ds ! i"]
  obtain res1 where res1:
    "mul_row res (ds ! i) os i 0 0 = Inr res1"
    "length res1 = length res"
    "val_digits res1 = val_digits res + base ^ i * (unat (ds ! i) * val_digits os)"
    "\<forall>k. i + length os < k \<longrightarrow> k < length res \<longrightarrow> res1 ! k = 0"
    using base_pos by auto
  have p1: "length res1 = length ds + length os" using res1(2) Suc.prems(1) by simp
  have p2: "\<forall>k. (i + 1) + length os \<le> k \<longrightarrow> k < length res1 \<longrightarrow> res1 ! k = 0"
    using res1(2,4) by simp
  have p3: "i + 1 \<le> length ds" using i by simp
  from Suc.hyps(1) [OF n p1 p2 p3] obtain res' where res':
    "mul_rows res1 ds os (i + 1) = Inr res'"
    "length res' = length res1"
    "val_digits res' = val_digits res1
        + base ^ (i + 1) * (val_digits (drop (i + 1) ds) * val_digits os)"
    by blast
  have step: "mul_rows res ds os i = mul_rows res1 ds os (i + 1)"
    using i res1(1) by (subst mul_rows_step) simp
  have V: "val_digits (drop i ds) = unat (ds ! i) + base * val_digits (drop (Suc i) ds)"
    using i by (simp add: val_digits_drop [of i ds])
  have "val_digits res' = val_digits res + base ^ i * (val_digits (drop i ds) * val_digits os)"
    unfolding res'(3) res1(3) V by (simp add: algebra_simps)
  with step res'(1,2) res1(2) show ?case by simp
qed

lemma mul_correct:
  "\<exists>res. mul x y = Inr (trim \<lparr>digits = res, negative = (negative x \<noteq> negative y)\<rparr>) \<and>
         length res = length (digits x) + length (digits y) \<and>
         val_digits res = val_digits (digits x) * val_digits (digits y)"
proof -
  let ?r0 = "replicate (length (digits x) + length (digits y)) (0::u32)"
  have "\<exists>res'. mul_rows ?r0 (digits x) (digits y) 0 = Inr res' \<and> length res' = length ?r0 \<and>
           val_digits res' = val_digits ?r0
              + base ^ 0 * (val_digits (drop 0 (digits x)) * val_digits (digits y))"
    by (rule mul_rows_correct) simp_all
  then obtain res where res:
    "mul_rows ?r0 (digits x) (digits y) 0 = Inr res"
    "length res = length (digits x) + length (digits y)"
    "val_digits res = val_digits (digits x) * val_digits (digits y)"
    by (auto simp: val_digits_replicate0)
  then show ?thesis by (auto simp: mul_def)
qed

subsection \<open>Shift left\<close>

definition shl_cur :: "u32 list \<Rightarrow> nat \<Rightarrow> nat \<Rightarrow> u32 \<Rightarrow> u64" where
  "shl_cur ds bit_shift i carry = push_bit bit_shift (ucast (ds ! i) :: u64) OR ucast carry"

lemma shl_loop_step:
  "shl_loop ds bs i carry =
     (if i < length ds
      then shl_loop (ds[i := lo32 (shl_cur ds bs i carry)]) bs (i + 1)
             (ucast (drop_bit 32 (shl_cur ds bs i carry)))
      else (ds, carry))"
  by (subst shl_loop.simps) (simp add: shl_cur_def Let_def)

lemma unat_shl_cur:
  assumes "unat c < 2 ^ bs" "bs < 32"
  shows "unat (shl_cur ds bs i c) = unat (ds ! i) * 2 ^ bs + unat c"
  unfolding shl_cur_def using assms by (rule unat_shl_word)

lemma shl_cur_carry:
  assumes "unat c < 2 ^ bs" "bs < 32"
  shows "unat (ucast (drop_bit 32 (shl_cur ds bs i c)) :: u32) < 2 ^ bs"
    and "unat (ucast (drop_bit 32 (shl_cur ds bs i c)) :: u32) = unat (shl_cur ds bs i c) div base"
proof -
  have "unat (ds ! i) * 2 ^ bs + unat c < (unat (ds ! i) + 1) * 2 ^ bs"
    using assms(1) by (simp add: algebra_simps)
  also have "\<dots> \<le> base * 2 ^ bs"
    using unat32_lt [of "ds ! i"] by (intro mult_le_mono1) simp
  finally have "unat (shl_cur ds bs i c) < base * 2 ^ bs"
    by (simp only: unat_shl_cur [OF assms])
  then have d: "unat (shl_cur ds bs i c) div base < 2 ^ bs"
    by (simp add: less_mult_imp_div_less mult.commute)
  have "(2::nat) ^ bs < 2 ^ 32"
    using assms(2) by (intro power_strict_increasing) simp_all
  then have "unat (shl_cur ds bs i c) div base < base"
    using d by (simp add: base_def)
  then have "unat (drop_bit 32 (shl_cur ds bs i c)) < base"
    by (simp only: unat_drop32)
  then have e: "unat (ucast (drop_bit 32 (shl_cur ds bs i c)) :: u32)
                = unat (drop_bit 32 (shl_cur ds bs i c))"
    by (rule unat_down32)
  show "unat (ucast (drop_bit 32 (shl_cur ds bs i c)) :: u32) = unat (shl_cur ds bs i c) div base"
    by (simp only: e unat_drop32)
  with d show "unat (ucast (drop_bit 32 (shl_cur ds bs i c)) :: u32) < 2 ^ bs"
    by simp
qed

lemma shl_loop_correct:
  assumes "unat carry < 2 ^ bs" "bs < 32" "i \<le> length ds"
  shows "\<exists>ds' c'. shl_loop ds bs i carry = (ds', c') \<and> length ds' = length ds \<and>
           val_digits ds' + base ^ length ds * unat c'
             = val_digits (take i ds) + base ^ i * (val_digits (drop i ds) * 2 ^ bs + unat carry)"
  using assms
proof (induction "length ds - i" arbitrary: i ds carry)
  case 0
  then have i: "i = length ds" by simp
  then have "shl_loop ds bs i carry = (ds, carry)"
    by (subst shl_loop_step) simp
  with i show ?case by simp
next
  case (Suc n)
  then have i: "i < length ds" by simp
  let ?cur = "shl_cur ds bs i carry"
  let ?ds1 = "ds[i := lo32 ?cur]"
  let ?c1 = "ucast (drop_bit 32 ?cur) :: u32"
  have n: "n = length ?ds1 - (i + 1)" using Suc.hyps(2) by simp
  have p1: "unat ?c1 < 2 ^ bs" by (rule shl_cur_carry(1) [OF Suc.prems(1,2)])
  have p3: "i + 1 \<le> length ?ds1" using i by simp
  from Suc.hyps(1) [OF n p1 Suc.prems(2) p3] obtain ds' c' where r:
    "shl_loop ?ds1 bs (i + 1) ?c1 = (ds', c')" "length ds' = length ?ds1"
    "val_digits ds' + base ^ length ?ds1 * unat c'
       = val_digits (take (i + 1) ?ds1)
         + base ^ (i + 1) * (val_digits (drop (i + 1) ?ds1) * 2 ^ bs + unat ?c1)"
    by blast
  have step: "shl_loop ds bs i carry = (ds', c')"
    using i r(1) by (subst shl_loop_step) simp
  define w where "w = unat ?cur mod base"
  define q where "q = unat ?cur div base"
  define V' where "V' = val_digits (drop (Suc i) ds)"
  define T where "T = val_digits (take i ds)"
  have cur: "w + base * q = unat (ds ! i) * 2 ^ bs + unat carry"
    using unat_shl_cur [OF Suc.prems(1,2), of ds i] by (simp add: w_def q_def)
  have tk: "val_digits (take (i + 1) ?ds1) = T + base ^ i * w"
    using i by (simp add: take_Suc_conv_app_nth val_digits_snoc unat_lo32 w_def T_def)
  have dr: "val_digits (drop (i + 1) ?ds1) = V'"
    by (simp add: V'_def)
  have c1: "unat ?c1 = q"
    using shl_cur_carry(2) [OF Suc.prems(1,2), of ds i] by (simp add: q_def)
  have V: "val_digits (drop i ds) = unat (ds ! i) + base * V'"
    using i by (simp add: val_digits_drop [of i ds] V'_def)
  have "val_digits ds' + base ^ length ds * unat c'
        = T + base ^ i * w + base ^ i * base * (V' * 2 ^ bs + q)"
    using r(3) unfolding tk dr c1 by simp
  also have "\<dots> = T + base ^ i * ((w + base * q) + base * V' * 2 ^ bs)"
    by (simp add: algebra_simps)
  also have "\<dots> = T + base ^ i * (val_digits (drop i ds) * 2 ^ bs + unat carry)"
    unfolding cur V by (simp add: algebra_simps)
  finally show ?case using step r(2) by (simp add: T_def)
qed

lemma val_digits_zeros_append: "val_digits (replicate n 0 @ ds) = base ^ n * val_digits ds"
  by (simp add: val_digits_append val_digits_replicate0)

lemma base_pow_shift: "base ^ (s div 32) * 2 ^ (s mod 32) = 2 ^ s"
proof -
  have "base ^ (s div 32) * 2 ^ (s mod 32) = (2::nat) ^ (32 * (s div 32) + s mod 32)"
    unfolding base_def by (simp only: power_mult power_add)
  then show ?thesis by simp
qed

lemma shl_digits:
  assumes "\<not> isZero x" "shift \<noteq> 0"
  shows "\<exists>ds. shl x shift = trim (x\<lparr>digits := ds\<rparr>) \<and> ds \<noteq> [] \<and>
              val_digits ds = val_digits (digits x) * 2 ^ shift"
proof -
  let ?ws = "shift div 32" and ?bs = "shift mod 32"
  let ?ds0 = "replicate ?ws 0 @ digits x"
  have "\<exists>ds' c'. shl_loop ?ds0 ?bs ?ws 0 = (ds', c') \<and> length ds' = length ?ds0 \<and>
           val_digits ds' + base ^ length ?ds0 * unat c'
             = val_digits (take ?ws ?ds0) + base ^ ?ws * (val_digits (drop ?ws ?ds0) * 2 ^ ?bs + unat (0::u32))"
    by (rule shl_loop_correct) simp_all
  then obtain ds' c' where r: "shl_loop ?ds0 ?bs ?ws 0 = (ds', c')" "length ds' = length ?ds0"
    "val_digits ds' + base ^ length ds' * unat c' = base ^ ?ws * (val_digits (digits x) * 2 ^ ?bs)"
    by (auto simp: val_digits_replicate0)
  let ?ds2 = "if c' \<noteq> 0 then ds' @ [c'] else ds'"
  have x: "digits x \<noteq> []" using assms(1) by (auto simp: isZero_def)
  have v: "val_digits ?ds2 = val_digits (digits x) * 2 ^ shift"
  proof -
    have "val_digits ?ds2 = val_digits ds' + base ^ length ds' * unat c'"
      by (simp add: val_digits_snoc)
    also have "\<dots> = val_digits (digits x) * (base ^ ?ws * 2 ^ ?bs)"
      unfolding r(3) by (simp add: algebra_simps)
    finally show ?thesis by (simp only: base_pow_shift)
  qed
  have ne: "?ds2 \<noteq> []" using r(2) x by auto
  have "shl x shift = trim (x\<lparr>digits := ?ds2\<rparr>)"
    using assms r(1) by (simp add: shl_def Let_def)
  with v ne show ?thesis by blast
qed

lemma digits_trim: "digits (trim x) = trim_digits (digits x)"
  by (simp add: trim_def Let_def)

lemma shl_val: "val_digits (digits (shl x shift)) = val_digits (digits x) * 2 ^ shift"
proof (cases "isZero x \<or> shift = 0")
  case True
  then show ?thesis
  proof
    assume "isZero x"
    then have "val_digits (digits x) = 0"
      by (cases "digits x") (auto simp: isZero_def)
    with \<open>isZero x\<close> show ?thesis by (simp add: shl_def)
  next
    assume "shift = 0"
    then show ?thesis by (simp add: shl_def)
  qed
next
  case False
  with shl_digits [of x shift] obtain ds where
    "shl x shift = trim (x\<lparr>digits := ds\<rparr>)" "val_digits ds = val_digits (digits x) * 2 ^ shift"
    by auto
  then show ?thesis by (simp add: digits_trim val_digits_trim)
qed

lemma shl_proper: "proper (digits x) \<Longrightarrow> proper (digits (shl x shift))"
proof (cases "isZero x \<or> shift = 0")
  case True
  assume "proper (digits x)"
  with True show ?thesis by (auto simp: shl_def)
next
  case False
  with shl_digits [of x shift] obtain ds where
    "shl x shift = trim (x\<lparr>digits := ds\<rparr>)" "ds \<noteq> []"
    by auto
  then show ?thesis by (simp add: digits_trim proper_trim)
qed

lemma negative_trim_False: "\<not> negative x \<Longrightarrow> \<not> negative (trim x)"
  by (simp add: trim_def Let_def)

lemma shl_nonneg: "\<not> negative x \<Longrightarrow> \<not> negative (shl x shift)"
  by (simp add: shl_def Let_def negative_trim_False split: prod.splits)

subsection \<open>Shift right\<close>

definition shr_cur :: "u32 list \<Rightarrow> nat \<Rightarrow> u32 \<Rightarrow> u64" where
  "shr_cur ds i carry = push_bit 32 (ucast carry :: u64) OR ucast (ds ! i)"

lemma shr_loop_Suc:
  "shr_loop ds bs (Suc i) carry =
     shr_loop (ds[i := lo32 (drop_bit bs (shr_cur ds i carry))]) bs i
       (ucast (shr_cur ds i carry AND (push_bit bs 1 - 1)))"
  by (simp add: shr_cur_def Let_def del: push_bit_of_1)

lemma unat_shr_cur: "unat (shr_cur ds i c) = unat c * base + unat (ds ! i)"
  unfolding shr_cur_def by (rule unat_shr_word)

lemma two_pow_lt_base: "bs < 32 \<Longrightarrow> (2::nat) ^ bs < base"
  unfolding base_def by (intro power_strict_increasing) simp_all

lemma shr_word:
  assumes "unat c < 2 ^ bs" "bs < 32"
  shows "unat (lo32 (drop_bit bs (shr_cur ds i c))) = unat (shr_cur ds i c) div 2 ^ bs"
    and "unat (ucast (shr_cur ds i c AND (push_bit bs 1 - 1)) :: u32) = unat (shr_cur ds i c) mod 2 ^ bs"
proof -
  let ?cur = "shr_cur ds i c"
  have "unat ?cur < (unat c + 1) * base"
    using unat32_lt [of "ds ! i"] by (simp add: unat_shr_cur)
  also have "\<dots> \<le> 2 ^ bs * base"
    using assms(1) by (intro mult_le_mono1) simp
  finally have "unat ?cur div 2 ^ bs < base"
    by (simp add: less_mult_imp_div_less mult.commute)
  moreover have "unat (drop_bit bs ?cur) = unat ?cur div 2 ^ bs"
    by (subst unat_drop_bit_eq) (rule drop_bit_eq_div)
  ultimately show "unat (lo32 (drop_bit bs ?cur)) = unat ?cur div 2 ^ bs"
    by (simp add: unat_lo32)
  have "unat ?cur mod 2 ^ bs < 2 ^ bs" by simp
  then have "unat ?cur mod 2 ^ bs < base"
    using two_pow_lt_base [OF assms(2)] by (rule less_trans)
  then have "unat (?cur AND (push_bit bs 1 - 1)) < base"
    by (simp only: unat_and_low)
  then have "unat (ucast (?cur AND (push_bit bs 1 - 1)) :: u32) = unat (?cur AND (push_bit bs 1 - 1))"
    by (rule unat_down32)
  then show "unat (ucast (?cur AND (push_bit bs 1 - 1)) :: u32) = unat ?cur mod 2 ^ bs"
    by (simp only: unat_and_low)
qed

lemma div_split_high:
  fixes K cur V d :: nat
  assumes "0 < d"
  shows "(K * cur + V) div d = K * (cur div d) + (K * (cur mod d) + V) div d"
    and "(K * cur + V) mod d = (K * (cur mod d) + V) mod d"
proof -
  have "K * cur = K * (cur div d * d + cur mod d)" by simp
  also have "\<dots> = (K * (cur div d)) * d + K * (cur mod d)"
    by (simp only: distrib_left mult.assoc)
  finally have e: "K * cur + V = (K * (cur div d)) * d + (K * (cur mod d) + V)"
    by simp
  have d: "d \<noteq> 0" using assms by simp
  show "(K * cur + V) div d = K * (cur div d) + (K * (cur mod d) + V) div d"
    unfolding e by (rule div_mult_self3 [OF d])
  show "(K * cur + V) mod d = (K * (cur mod d) + V) mod d"
    unfolding e by (rule mod_mult_self3)
qed

lemma shr_loop_correct:
  assumes "unat carry < 2 ^ bs" "bs < 32" "k \<le> length ds"
  shows "length (shr_loop ds bs k carry) = length ds \<and>
         drop k (shr_loop ds bs k carry) = drop k ds \<and>
         val_digits (take k (shr_loop ds bs k carry))
           = (base ^ k * unat carry + val_digits (take k ds)) div 2 ^ bs"
  using assms
proof (induction k arbitrary: ds carry)
  case 0
  then show ?case by simp
next
  case (Suc k)
  let ?cur = "shr_cur ds k carry"
  let ?w = "lo32 (drop_bit bs ?cur)"
  let ?c1 = "ucast (?cur AND (push_bit bs 1 - 1)) :: u32"
  let ?ds1 = "ds[k := ?w]"
  let ?R = "shr_loop ?ds1 bs k ?c1"
  have k: "k < length ds" using Suc.prems(3) by simp
  have w: "unat ?w = unat ?cur div 2 ^ bs" and c1: "unat ?c1 = unat ?cur mod 2 ^ bs"
    using shr_word [OF Suc.prems(1,2), of ds k] by simp_all
  have p1: "unat ?c1 < 2 ^ bs" unfolding c1 by simp
  have p3: "k \<le> length ?ds1" using k by simp
  from Suc.IH [OF p1 Suc.prems(2) p3]
  have ih: "length ?R = length ds" "drop k ?R = drop k ?ds1"
    "val_digits (take k ?R) = (base ^ k * unat ?c1 + val_digits (take k ?ds1)) div 2 ^ bs"
    by simp_all
  have R: "shr_loop ds bs (Suc k) carry = ?R" by (rule shr_loop_Suc)
  have "drop k ?R = ?w # drop (Suc k) ds"
    unfolding ih(2) using k by (simp add: drop_update_cancel Cons_nth_drop_Suc [symmetric] del: push_bit_of_1)
  then have Rk: "?R ! k = ?w" "drop (Suc k) ?R = drop (Suc k) ds"
    using k ih(1) by (metis Cons_nth_drop_Suc list.inject)+
  define V where "V = val_digits (take k ds)"
  define K where "K = base ^ k"
  have d0: "0 < (2::nat) ^ bs" by simp
  have "val_digits (take (Suc k) ?R) = val_digits (take k ?R) + K * unat (?R ! k)"
    using k ih(1) by (simp add: val_digits_take_Suc K_def del: push_bit_of_1)
  also have "\<dots> = K * (unat ?cur div 2 ^ bs) + (K * (unat ?cur mod 2 ^ bs) + V) div 2 ^ bs"
    unfolding ih(3) Rk(1) w c1 by (simp add: K_def V_def)
  also have "\<dots> = (K * unat ?cur + V) div 2 ^ bs"
    by (rule div_split_high(1) [OF d0, symmetric])
  also have "K * unat ?cur + V = base ^ Suc k * unat carry + val_digits (take (Suc k) ds)"
    using k by (simp add: unat_shr_cur val_digits_take_Suc K_def V_def algebra_simps)
  finally have v: "val_digits (take (Suc k) ?R)
      = (base ^ Suc k * unat carry + val_digits (take (Suc k) ds)) div 2 ^ bs" .
  show ?case unfolding R using ih(1) Rk(2) v by simp
qed

lemma val_digits_take_drop:
  "val_digits ds = val_digits (take n ds) + base ^ min n (length ds) * val_digits (drop n ds)"
  using val_digits_append [of "take n ds" "drop n ds"] by (simp add: min.commute)

lemma val_digits_drop_div: "val_digits (drop n ds) = val_digits ds div base ^ n"
proof (cases "n \<le> length ds")
  case True
  then have e: "val_digits ds = val_digits (take n ds) + base ^ n * val_digits (drop n ds)"
    using val_digits_take_drop [of ds n] by (simp add: min_def)
  have "val_digits (take n ds) < base ^ n"
    using val_digits_lt [of "take n ds"] True by simp
  then show ?thesis unfolding e using base_pos by simp
next
  case False
  then have "base ^ length ds \<le> base ^ n"
    using base_pos by (intro power_increasing) simp_all
  with val_digits_lt [of ds] have "val_digits ds < base ^ n" by simp
  with False show ?thesis by simp
qed

lemma val_zero_of_isZero: "isZero x \<Longrightarrow> val_digits (digits x) = 0"
  by (cases "digits x") (auto simp: isZero_def)

lemma shr_val: "val_digits (digits (shr x shift)) = val_digits (digits x) div 2 ^ shift"
proof (cases "isZero x \<or> shift = 0")
  case True
  then show ?thesis
    by (auto simp: shr_def val_zero_of_isZero)
next
  case False
  let ?ws = "shift div 32" and ?bs = "shift mod 32"
  have dd: "val_digits (digits x) div base ^ ?ws div 2 ^ ?bs = val_digits (digits x) div 2 ^ shift"
    by (simp only: div_mult2_eq [symmetric] base_pow_shift)
  show ?thesis
  proof (cases "?ws \<ge> length (digits x)")
    case True
    then have "val_digits (drop ?ws (digits x)) = 0" by simp
    then have "val_digits (digits x) div base ^ ?ws = 0"
      by (simp only: val_digits_drop_div)
    with dd have "val_digits (digits x) div 2 ^ shift = 0" by simp
    with True False show ?thesis
      by (simp add: shr_def Let_def BigInt_of_int_def)
  next
    case ws: False
    let ?ds0 = "drop ?ws (digits x)"
    let ?R = "shr_loop ?ds0 ?bs (length ?ds0) 0"
    have "length ?R = length ?ds0 \<and> drop (length ?ds0) ?R = drop (length ?ds0) ?ds0 \<and>
         val_digits (take (length ?ds0) ?R)
           = (base ^ length ?ds0 * unat (0::u32) + val_digits (take (length ?ds0) ?ds0)) div 2 ^ ?bs"
      by (rule shr_loop_correct) simp_all
    then have l: "length ?R = length ?ds0"
      and v: "val_digits (take (length ?ds0) ?R)
           = (base ^ length ?ds0 * unat (0::u32) + val_digits (take (length ?ds0) ?ds0)) div 2 ^ ?bs"
      by blast+
    have "take (length ?ds0) ?R = ?R" using l by simp
    with v have "val_digits ?R = val_digits ?ds0 div 2 ^ ?bs" by simp
    then have "val_digits ?R = val_digits (digits x) div 2 ^ shift"
      by (simp only: val_digits_drop_div dd)
    moreover have "shr x shift = trim (x\<lparr>digits := ?R\<rparr>)"
      using False ws by (simp add: shr_def Let_def)
    ultimately show ?thesis by (simp add: digits_trim val_digits_trim)
  qed
qed

subsection \<open>Subtraction and multiplication as the division uses them\<close>

lemma abs_big_nonneg: "\<not> negative x \<Longrightarrow> abs_big x = x"
  by (simp add: abs_big_def)

lemma sub_nonneg:
  assumes "\<not> negative x" "\<not> negative y" "proper (digits x)" "proper (digits y)"
    and "val_digits (digits y) \<le> val_digits (digits x)"
  shows "\<exists>r. sub x y = Some r \<and> \<not> negative r \<and> proper (digits r) \<and>
             val_digits (digits r) = val_digits (digits x) - val_digits (digits y)"
proof -
  let ?r = "trim \<lparr>digits = sub_loop (digits x) (digits y) 0 0 [], negative = negative x\<rparr>"
  have "\<not> lt x y" using lt_val [OF assms(3,4,1,2)] assms(5) by simp
  then have "sub x y = Some ?r"
    using assms(1,2) by (simp add: sub_def addsub.simps [of True x y] ge_def abs_big_nonneg)
  moreover have "\<not> negative ?r" using assms(1) by (simp add: negative_trim_False)
  moreover have "proper (digits ?r)"
  proof -
    have "length (sub_loop (digits x) (digits y) 0 0 []) = length (digits x)"
      by (simp add: sub_loop_length)
    with assms(3) have "sub_loop (digits x) (digits y) 0 0 [] \<noteq> []"
      by (auto simp: proper_def)
    then show ?thesis by (simp add: digits_trim proper_trim)
  qed
  moreover have "val_digits (digits ?r) = val_digits (digits x) - val_digits (digits y)"
    by (simp add: digits_trim val_digits_trim sub_loop_correct [OF assms(5)])
  ultimately show ?thesis by blast
qed

lemma val_of_uint32: "val_digits (digits (BigInt_of_uint32 q)) = unat q"
  by (simp add: BigInt_of_uint32_def)

lemma mul_small:
  assumes "\<not> negative d" "digits d \<noteq> []"
  shows "\<exists>m. mul d (BigInt_of_uint32 q) = Inr m \<and> \<not> negative m \<and> proper (digits m) \<and>
             val_digits (digits m) = val_digits (digits d) * unat q"
proof -
  from mul_correct [of d "BigInt_of_uint32 q"] obtain res where res:
    "mul d (BigInt_of_uint32 q)
       = Inr (trim \<lparr>digits = res, negative = (negative d \<noteq> negative (BigInt_of_uint32 q))\<rparr>)"
    "length res = length (digits d) + length (digits (BigInt_of_uint32 q))"
    "val_digits res = val_digits (digits d) * val_digits (digits (BigInt_of_uint32 q))"
    by blast
  let ?m = "trim \<lparr>digits = res, negative = (negative d \<noteq> negative (BigInt_of_uint32 q))\<rparr>"
  have "res \<noteq> []" using res(2) assms(2) by auto
  then have "proper (digits ?m)" by (simp add: digits_trim proper_trim)
  moreover have "\<not> negative ?m"
    using assms(1) by (intro negative_trim_False) (simp add: BigInt_of_uint32_def)
  moreover have "val_digits (digits ?m) = val_digits (digits d) * unat q"
    using res(3) by (simp add: digits_trim val_digits_trim val_of_uint32)
  ultimately show ?thesis using res(1) by blast
qed

lemma two_pow_32: "(2::nat) ^ (32 * i) = base ^ i"
  by (simp add: base_def power_mult)

text \<open>The trial product \<open>divisor * qguess\<close>, shifted to word position \<open>i\<close>.\<close>

lemma trial_product:
  assumes "\<not> negative d" "digits d \<noteq> []"
  shows "\<exists>m. mul d (BigInt_of_uint32 q) = Inr m \<and> \<not> negative (shl m (32 * i)) \<and>
             proper (digits (shl m (32 * i))) \<and>
             val_digits (digits (shl m (32 * i))) = val_digits (digits d) * unat q * base ^ i"
proof -
  from mul_small [OF assms, of q] obtain m where m:
    "mul d (BigInt_of_uint32 q) = Inr m" "\<not> negative m" "proper (digits m)"
    "val_digits (digits m) = val_digits (digits d) * unat q"
    by blast
  have "val_digits (digits (shl m (32 * i))) = val_digits (digits d) * unat q * base ^ i"
    by (simp only: shl_val m(4) two_pow_32)
  with m(1) shl_nonneg [OF m(2)] shl_proper [OF m(3)] show ?thesis by blast
qed

subsection \<open>The correction loop\<close>

lemma correct_loop_correct:
  assumes r: "\<not> negative r" "proper (digits r)"
    and d: "\<not> negative d" "digits d \<noteq> []" "0 < val_digits (digits d)"
    and q: "unat q < base"
    and m0: "mul d (BigInt_of_uint32 (ucast q)) = Inr m0"
    and ge: "val_digits (digits r) div (val_digits (digits d) * base ^ i) \<le> unat q"
  shows "\<exists>q' m'. correct_loop r d i q (shl m0 (32 * i)) = Some (Inr (q', shl m' (32 * i))) \<and>
           mul d (BigInt_of_uint32 (ucast q')) = Inr m' \<and>
           unat q' = val_digits (digits r) div (val_digits (digits d) * base ^ i)"
  using q m0 ge
proof (induction "unat q" arbitrary: q m0 rule: less_induct)
  case less
  let ?R = "val_digits (digits r)" and ?D = "val_digits (digits d)"
  let ?qs = "?R div (?D * base ^ i)"
  have uq: "unat (ucast q :: u32) = unat q" using less.prems(1) by (rule unat_down32)
  from trial_product [OF d(1,2), of "ucast q" i] less.prems(2) uq
  have t: "\<not> negative (shl m0 (32 * i))" "proper (digits (shl m0 (32 * i)))"
    "val_digits (digits (shl m0 (32 * i))) = ?D * unat q * base ^ i"
    by auto
  have DB: "0 < ?D * base ^ i" using d(3) base_pos by simp
  have lt_iff: "lt r (shl m0 (32 * i)) \<longleftrightarrow> ?R < ?D * unat q * base ^ i"
    using lt_val [OF r(2) t(2) r(1) t(1)] t(3) by simp
  show ?case
  proof (cases "lt r (shl m0 (32 * i))")
    case False
    then have "unat q * (?D * base ^ i) \<le> ?R"
      using lt_iff by (simp add: mult_ac)
    then have "unat q \<le> ?qs"
      using DB by (simp add: less_eq_div_iff_mult_less_eq)
    with less.prems(3) have "unat q = ?qs" by simp
    moreover have "correct_loop r d i q (shl m0 (32 * i)) = Some (Inr (q, shl m0 (32 * i)))"
      using False by (subst correct_loop.simps) simp
    ultimately show ?thesis using less.prems(2) by blast
  next
    case True
    then have "?R < unat q * (?D * base ^ i)"
      using lt_iff by (simp add: mult_ac)
    then have qs_lt: "?qs < unat q"
      using DB by (simp add: div_less_iff_less_mult mult.commute)
    then have q0: "unat q \<noteq> 0" by simp
    then have "q \<noteq> 0" by (simp only: unat_eq_0) simp
    then have "1 \<le> q" by (simp add: word_le_nat_alt) (use q0 in simp)
    then have uq1: "unat (q - 1) = unat q - 1"
      by (simp add: unat_sub)
    have p1: "unat (q - 1) < base" using uq1 less.prems(1) by simp
    have p3: "?qs \<le> unat (q - 1)" using uq1 qs_lt by simp
    from mul_small [OF d(1,2), of "ucast (q - 1)"] obtain m1 where
      m1: "mul d (BigInt_of_uint32 (ucast (q - 1))) = Inr m1"
      by blast
    have dec: "unat (q - 1) < unat q" using uq1 q0 by simp
    from less.hyps [OF dec p1 m1 p3] obtain q' m' where r':
      "correct_loop r d i (q - 1) (shl m1 (32 * i)) = Some (Inr (q', shl m' (32 * i)))"
      "mul d (BigInt_of_uint32 (ucast q')) = Inr m'" "unat q' = ?qs"
      by blast
    have "correct_loop r d i q (shl m0 (32 * i))
          = correct_loop r d i (q - 1) (shl m1 (32 * i))"
      using True m1 by (subst correct_loop.simps) (simp add: Let_def)
    with r' show ?thesis by auto
  qed
qed

subsection \<open>The trial digit\<close>

lemma proper_last_nonzero:
  assumes "proper ds" "0 < val_digits ds"
  shows "last ds \<noteq> 0"
proof (cases "length ds = 1")
  case True
  then obtain w where "ds = [w]" by (cases ds) auto
  with assms(2) show ?thesis by (auto simp: unat_eq_0)
next
  case False
  with assms(1) show ?thesis by (simp add: proper_def)
qed

lemma proper_length_bound:
  assumes "proper ds" "val_digits ds < base ^ n" "0 < n"
  shows "length ds \<le> n"
proof (rule ccontr)
  assume "\<not> length ds \<le> n"
  then have l: "n < length ds" by simp
  with assms(3) have "length ds \<noteq> 1" by simp
  with assms(1) have "last ds \<noteq> 0" "ds \<noteq> []" by (auto simp: proper_def)
  then have "base ^ (length ds - 1) \<le> val_digits ds" by (rule val_digits_ge [rotated])
  moreover have "base ^ n \<le> base ^ (length ds - 1)"
    using l base_pos by (intro power_increasing) simp_all
  ultimately show False using assms(2) by simp
qed

lemma val_digits_top:
  assumes "ds \<noteq> []"
  shows "base ^ (length ds - 1) * unat (last ds) \<le> val_digits ds"
proof -
  from assms have "ds = butlast ds @ [last ds]" by simp
  then have "val_digits ds = val_digits (butlast ds) + base ^ length (butlast ds) * unat (last ds)"
    by (metis val_digits_snoc)
  then show ?thesis by simp
qed

text \<open>
  The two-word window of the running remainder at \<open>j + 1\<close> and \<open>j\<close>, read as the
  source reads it (the upper word only when it exists).
\<close>

lemma window_bound:
  assumes "j < length ds" "length ds \<le> j + 2"
  shows "val_digits ds
         < base ^ j * ((if j + 1 < length ds then unat (ds ! (j + 1)) else 0) * base
                        + unat (ds ! j) + 1)"
proof -
  let ?hi = "if j + 1 < length ds then unat (ds ! (j + 1)) else 0"
  have e: "val_digits ds = val_digits (take j ds) + base ^ j * val_digits (drop j ds)"
    using val_digits_take_drop [of ds j] assms(1) by (simp add: min_def)
  have "drop (Suc (Suc j)) ds = []" using assms(2) by simp
  then have d: "val_digits (drop j ds) = unat (ds ! j) + base * ?hi"
    using assms(1)
    by (simp add: val_digits_drop [of j ds] val_digits_drop [of "Suc j" ds])
  have "val_digits (take j ds) < base ^ j"
    using val_digits_lt [of "take j ds"] assms(1) by simp
  then have "val_digits ds < base ^ j + base ^ j * (unat (ds ! j) + base * ?hi)"
    unfolding e d by simp
  also have "\<dots> = base ^ j * (?hi * base + unat (ds ! j) + 1)"
    by (simp add: algebra_simps)
  finally show ?thesis .
qed

lemma trial_digit_bound:
  fixes R D top num :: nat
  assumes D: "base ^ (m - 1) * top \<le> D" and top: "0 < top"
    and R: "R < base ^ (i + m - 1) * (num + 1)" and m: "0 < m"
  shows "R div (D * base ^ i) \<le> num div top"
proof -
  define q where "q = R div (D * base ^ i)"
  define P where "P = base ^ (i + m - 1)"
  have "(m - 1) + i = i + m - 1" using m by arith
  then have pw: "base ^ (m - 1) * base ^ i = P"
    unfolding P_def by (simp only: power_add [symmetric])
  have "P * top = (base ^ (m - 1) * top) * base ^ i"
    unfolding pw [symmetric] by (simp only: mult_ac)
  also have "\<dots> \<le> D * base ^ i"
    using D by (rule mult_le_mono1)
  finally have "q * (P * top) \<le> q * (D * base ^ i)"
    by (rule mult_le_mono2)
  also have "\<dots> \<le> R" unfolding q_def by simp
  also have "\<dots> < P * (num + 1)" using R unfolding P_def .
  finally have "P * (q * top) < P * (num + 1)" by (simp only: mult_ac)
  then have "q * top < num + 1" by (rule mult_less_cancel1 [THEN iffD1, THEN conjunct2])
  then have "q * top \<le> num" by simp
  then have "q \<le> num div top" using top by (simp add: less_eq_div_iff_mult_less_eq)
  then show ?thesis unfolding q_def .
qed

text \<open>The word arithmetic of the estimate.\<close>

lemma unat_numerator:
  "unat (push_bit 32 (hi :: u64) + lo) = unat hi * base + unat lo"
  if "unat hi < base" "unat lo < base"
proof -
  have "unat hi * 2 ^ 32 < 2 ^ 64" using that(1) by (simp add: base_def)
  then have p: "unat (push_bit 32 hi) = unat hi * base"
    by (simp add: unat_push64 base_def)
  have "unat hi * base \<le> (base - 1) * base"
    using that(1) by (intro mult_le_mono1) simp
  then have "unat hi * base + unat lo < (base - 1) * base + base"
    using that(2) by (rule add_le_less_mono)
  also have "(base - 1) * base + base = base * base"
    using base_pos by (simp add: algebra_simps)
  finally have "unat (push_bit 32 hi) + unat lo < base * base" by (simp only: p)
  then show ?thesis by (simp only: unat_add64 p)
qed

lemma clamp_word:
  "unat (if (q::u64) > 0xFFFFFFFF then 0xFFFFFFFF else q) = min (unat q) (base - 1)"
proof -
  have "unat (0xFFFFFFFF :: u64) = base - 1" by (simp add: base_def)
  then show ?thesis by (auto simp: word_less_nat_alt min_def)
qed

subsection \<open>The long-division loop\<close>

definition qguess_of :: "BigInt \<Rightarrow> BigInt \<Rightarrow> nat \<Rightarrow> nat \<Rightarrow> u64" where
  "qguess_of remainder divisor i m =
     (let r_hi = (if i + m < length (digits remainder)
                  then ucast (digits remainder ! (i + m)) else 0) :: u64;
          r_lo = ucast (digits remainder ! (i + m - 1)) :: u64;
          numerator = push_bit 32 r_hi + r_lo;
          denominator = ucast (last (digits divisor)) :: u64;
          qguess0 = numerator div denominator
      in if qguess0 > 0xFFFFFFFF then 0xFFFFFFFF else qguess0)"

lemma div_loop_Suc:
  assumes "\<not> (i + m = 0 \<or> length (digits r) \<le> i + m - 1)" "digits d \<noteq> []"
    "last (digits d) \<noteq> 0"
  shows "div_loop r d qd m (Suc i) =
     (case mul d (BigInt_of_uint32 (ucast (qguess_of r d i m))) of
        Inl e \<Rightarrow> Some (Inl e)
      | Inr mult \<Rightarrow>
          (case correct_loop r d i (qguess_of r d i m) (shl mult (32 * i)) of
             None \<Rightarrow> None
           | Some (Inl e) \<Rightarrow> Some (Inl e)
           | Some (Inr (qguess', mult')) \<Rightarrow>
               (if length qd \<le> i then Some (Inl OutOfBounds)
                else case sub r mult' of
                       None \<Rightarrow> None
                     | Some r' \<Rightarrow> div_loop r' d (qd[i := ucast qguess']) m i)))"
proof -
  have g: "(i + m = 0 \<or> length (digits r) \<le> i + m - 1) = False"
    using assms(1) by simp
  have h2: "(digits d = []) = False" using assms(2) by simp
  have h3: "(last (digits d) = 0) = False" using assms(3) by simp
  show ?thesis
    by (simp only: div_loop.simps(2) g h2 h3 if_False Let_def qguess_of_def)
qed

lemma unat_qguess_of:
  assumes "last (digits d) \<noteq> 0"
  shows "unat (qguess_of r d i m) =
     min (((if i + m < length (digits r) then unat (digits r ! (i + m)) else 0) * base
            + unat (digits r ! (i + m - 1))) div unat (last (digits d)))
         (base - 1)"
proof -
  let ?hi = "(if i + m < length (digits r) then ucast (digits r ! (i + m)) else 0) :: u64"
  let ?lo = "ucast (digits r ! (i + m - 1)) :: u64"
  have hi: "unat ?hi = (if i + m < length (digits r) then unat (digits r ! (i + m)) else 0)"
    by (simp add: unat_ucast32)
  have hi_lt: "unat ?hi < base"
    unfolding hi using unat32_lt [of "digits r ! (i + m)"] base_pos by simp
  have lo: "unat ?lo = unat (digits r ! (i + m - 1))" by (simp add: unat_ucast32)
  have lo_lt: "unat ?lo < base" unfolding lo by (rule unat32_lt)
  have num: "unat (push_bit 32 ?hi + ?lo) = unat ?hi * base + unat ?lo"
    using hi_lt lo_lt by (rule unat_numerator)
  have "unat ((push_bit 32 ?hi + ?lo) div ucast (last (digits d)))
        = (unat ?hi * base + unat ?lo) div unat (last (digits d))"
    by (simp only: unat_div num unat_ucast32)
  then show ?thesis
    unfolding qguess_of_def Let_def clamp_word by (simp only: hi lo)
qed

lemma div_mod_step:
  fixes R D K :: nat
  assumes "0 < D"
  shows "(R - R div (D * K) * (D * K)) mod D = R mod D"
    and "R div D = R div (D * K) * K + (R - R div (D * K) * (D * K)) div D"
proof -
  define q where "q = R div (D * K)"
  define R' where "R' = R - q * (D * K)"
  have "q * (D * K) \<le> R" unfolding q_def by simp
  then have R: "R = (q * K) * D + R'" unfolding R'_def by (simp add: mult_ac)
  have D: "D \<noteq> 0" using assms by simp
  have "R mod D = ((q * K) * D + R') mod D" by (rule arg_cong [OF R])
  then have "R mod D = R' mod D" by (simp only: mod_mult_self3)
  then show "(R - R div (D * K) * (D * K)) mod D = R mod D"
    unfolding q_def [symmetric] R'_def [symmetric] by simp
  have "R div D = ((q * K) * D + R') div D" by (rule arg_cong [OF R])
  then have "R div D = q * K + R' div D" by (simp only: div_mult_self3 [OF D])
  then show "R div D = R div (D * K) * K + (R - R div (D * K) * (D * K)) div D"
    unfolding q_def [symmetric] R'_def [symmetric] .
qed

lemma div_loop_correct:
  assumes "\<not> negative r" "proper (digits r)"
    and "\<not> negative d" "proper (digits d)" "last (digits d) \<noteq> 0" "m = length (digits d)"
    and "val_digits (digits r) < val_digits (digits d) * base ^ k" "k \<le> length qd"
  shows "div_loop r d qd m k = Some (Inl OutOfBounds) \<or>
         (\<exists>qd' r'. div_loop r d qd m k = Some (Inr (qd', r')) \<and>
            \<not> negative r' \<and> proper (digits r') \<and>
            val_digits (digits r') = val_digits (digits r) mod val_digits (digits d) \<and>
            length qd' = length qd \<and> drop k qd' = drop k qd \<and>
            val_digits (take k qd') = val_digits (digits r) div val_digits (digits d))"
  using assms(1,2,7,8)
proof (induction k arbitrary: r qd)
  case 0
  then show ?case by simp
next
  case (Suc i)
  let ?R = "val_digits (digits r)" and ?D = "val_digits (digits d)"
  let ?top = "unat (last (digits d))"
  have dne: "digits d \<noteq> []" using assms(4) by (simp add: proper_def)
  have m: "0 < m" using assms(6) dne by simp
  have top: "0 < ?top" using assms(5) by (simp add: unat_gt_0)
  have Dtop: "base ^ (m - 1) * ?top \<le> ?D"
    unfolding assms(6) by (rule val_digits_top [OF dne])
  have D0: "0 < ?D"
  proof -
    have "0 < base ^ (m - 1)" using base_pos by simp
    then have "0 < base ^ (m - 1) * ?top" using top by (rule mult_pos_pos)
    then show ?thesis using Dtop by (rule less_le_trans)
  qed
  show ?case
  proof (cases "i + m = 0 \<or> length (digits r) \<le> i + m - 1")
    case True
    then show ?thesis by simp
  next
    case False
    then have j: "i + m - 1 < length (digits r)" by simp
    \<comment> \<open>the remainder has at most \<open>i + m + 1\<close> words\<close>
    have "?D < base ^ m" unfolding assms(6) by (rule val_digits_lt)
    then have "?D \<le> base ^ m" by (rule less_imp_le)
    then have "?D * base ^ Suc i \<le> base ^ m * base ^ Suc i"
      by (rule mult_le_mono1)
    with Suc.prems(3) have "?R < base ^ m * base ^ Suc i" by (rule less_le_trans)
    then have "?R < base ^ (m + Suc i)" by (simp only: power_add)
    then have "length (digits r) \<le> m + Suc i"
      by (intro proper_length_bound [OF Suc.prems(2)]) simp_all
    then have len: "length (digits r) \<le> (i + m - 1) + 2" using m by simp
    define num where "num = (if i + m < length (digits r) then unat (digits r ! (i + m)) else 0)
                             * base + unat (digits r ! (i + m - 1))"
    have im: "i + m - 1 + 1 = i + m" using m by simp
    have Rwin: "?R < base ^ (i + m - 1) * (num + 1)"
      using window_bound [OF j len] unfolding num_def im by simp
    define qs where "qs = ?R div (?D * base ^ i)"
    have qs_num: "qs \<le> num div ?top"
      unfolding qs_def using Dtop top Rwin m by (rule trial_digit_bound)
    have qs_base: "qs < base"
    proof -
      have "?R < base * (?D * base ^ i)" using Suc.prems(3) by (simp add: mult_ac)
      then show ?thesis unfolding qs_def by (simp add: less_mult_imp_div_less)
    qed
    let ?qg = "qguess_of r d i m"
    have uqg: "unat ?qg = min (num div ?top) (base - 1)"
      unfolding num_def by (rule unat_qguess_of [OF assms(5)])
    have qg_lt: "unat ?qg < base" unfolding uqg using base_pos by simp
    have qg_ge: "qs \<le> unat ?qg" unfolding uqg using qs_num qs_base by simp
    from mul_small [OF assms(3) dne, of "ucast ?qg"] obtain m0 where
      m0: "mul d (BigInt_of_uint32 (ucast ?qg)) = Inr m0" by blast
    from correct_loop_correct [OF Suc.prems(1,2) assms(3) dne D0 qg_lt m0 qg_ge [unfolded qs_def]]
    obtain q' m' where c:
      "correct_loop r d i ?qg (shl m0 (32 * i)) = Some (Inr (q', shl m' (32 * i)))"
      "mul d (BigInt_of_uint32 (ucast q')) = Inr m'" "unat q' = qs"
      unfolding qs_def by blast
    have uq': "unat (ucast q' :: u32) = qs"
      using c(3) qs_base by (simp add: unat_down32)
    from trial_product [OF assms(3) dne, of "ucast q'" i] c(2) uq'
    have t: "\<not> negative (shl m' (32 * i))" "proper (digits (shl m' (32 * i)))"
      "val_digits (digits (shl m' (32 * i))) = ?D * qs * base ^ i"
      by auto
    have qsle: "qs * (?D * base ^ i) \<le> ?R" unfolding qs_def by simp
    have tq: "?D * qs * base ^ i = qs * (?D * base ^ i)" by (simp only: mult_ac)
    have tle: "val_digits (digits (shl m' (32 * i))) \<le> ?R"
      unfolding t(3) tq by (rule qsle)
    from sub_nonneg [OF Suc.prems(1) t(1) Suc.prems(2) t(2) tle] obtain r' where r':
      "sub r (shl m' (32 * i)) = Some r'" "\<not> negative r'" "proper (digits r')"
      "val_digits (digits r') = ?R - ?D * qs * base ^ i"
      unfolding t(3) by blast
    have r'val: "val_digits (digits r') = ?R - qs * (?D * base ^ i)"
      unfolding r'(4) tq ..
    have DK: "0 < ?D * base ^ i" using D0 base_pos by simp
    have r'lt: "val_digits (digits r') < ?D * base ^ i"
    proof -
      have "?R - qs * (?D * base ^ i) = ?R mod (?D * base ^ i)"
        unfolding qs_def by (simp add: minus_div_mult_eq_mod)
      then show ?thesis unfolding r'val using DK by simp
    qed
    let ?qd1 = "qd[i := ucast q']"
    have i_lt: "i < length qd" using Suc.prems(4) by simp
    have step: "div_loop r d qd m (Suc i) = div_loop r' d ?qd1 m i"
      using i_lt m0 c(1) r'(1)
      by (subst div_loop_Suc [OF False dne assms(5)]) simp
    have p4: "i \<le> length ?qd1" using i_lt by simp
    from Suc.IH [OF r'(2,3) r'lt p4]
    show ?thesis
    proof
      assume "div_loop r' d ?qd1 m i = Some (Inl OutOfBounds)"
      with step show ?thesis by simp
    next
      assume "\<exists>qd' r''. div_loop r' d ?qd1 m i = Some (Inr (qd', r'')) \<and>
            \<not> negative r'' \<and> proper (digits r'') \<and>
            val_digits (digits r'') = val_digits (digits r') mod ?D \<and>
            length qd' = length ?qd1 \<and> drop i qd' = drop i ?qd1 \<and>
            val_digits (take i qd') = val_digits (digits r') div ?D"
      then obtain qd' r'' where f:
        "div_loop r' d ?qd1 m i = Some (Inr (qd', r''))"
        "\<not> negative r''" "proper (digits r'')"
        "val_digits (digits r'') = val_digits (digits r') mod ?D"
        "length qd' = length ?qd1" "drop i qd' = drop i ?qd1"
        "val_digits (take i qd') = val_digits (digits r') div ?D"
        by blast
      have "drop i qd' = ucast q' # drop (Suc i) qd"
        unfolding f(6) using i_lt
        by (simp add: drop_update_cancel Cons_nth_drop_Suc [symmetric])
      moreover have "drop i qd' = qd' ! i # drop (Suc i) qd'"
        using i_lt f(5) by (simp add: Cons_nth_drop_Suc)
      ultimately have qi: "qd' ! i = ucast q'" "drop (Suc i) qd' = drop (Suc i) qd"
        by simp_all
      have v1: "val_digits (digits r'') = ?R mod ?D"
        unfolding f(4) r'val qs_def by (rule div_mod_step(1) [OF D0])
      have "val_digits (take (Suc i) qd') = val_digits (take i qd') + base ^ i * qs"
        using i_lt f(5) by (simp add: val_digits_take_Suc qi(1) uq')
      also have "\<dots> = qs * base ^ i + (?R - qs * (?D * base ^ i)) div ?D"
        unfolding f(7) r'val by simp
      also have "\<dots> = ?R div ?D"
        unfolding qs_def by (rule div_mod_step(2) [OF D0, symmetric])
      finally have v2: "val_digits (take (Suc i) qd') = ?R div ?D" .
      from step f(1,2,3,5) qi(2) v1 v2 show ?thesis by simp
    qed
  qed
qed

subsection \<open>Signs and zero\<close>

lemma proper_val_zero:
  assumes "proper ds"
  shows "length ds = 1 \<and> ds ! 0 = 0 \<longleftrightarrow> val_digits ds = 0"
proof
  assume "length ds = 1 \<and> ds ! 0 = 0"
  then have "ds = [0]" by (cases ds) auto
  then show "val_digits ds = 0" by simp
next
  assume z: "val_digits ds = 0"
  have l: "length ds = 1"
  proof (rule ccontr)
    assume "length ds \<noteq> 1"
    with assms have "last ds \<noteq> 0" "ds \<noteq> []" by (auto simp: proper_def)
    then have "base ^ (length ds - 1) \<le> val_digits ds" by (rule val_digits_ge [rotated])
    with z base_pos show False by simp
  qed
  then obtain w where "ds = [w]" by (cases ds) auto
  with z show "length ds = 1 \<and> ds ! 0 = 0" by (simp add: unat_eq_0)
qed

lemma proper_isZero: "proper (digits x) \<Longrightarrow> isZero x \<longleftrightarrow> val_digits (digits x) = 0"
  using proper_val_zero [of "digits x"] by (auto simp: isZero_def proper_def)

lemma trim_sign:
  assumes "digits x \<noteq> []"
  shows "negative (trim x) \<longleftrightarrow> negative x \<and> val_digits (digits x) \<noteq> 0"
proof -
  have "proper (trim_digits (digits x))" using assms by (rule proper_trim)
  from proper_val_zero [OF this] show ?thesis
    by (simp add: trim_def Let_def val_digits_trim)
qed

lemma trim_proper: "digits x \<noteq> [] \<Longrightarrow> proper (digits (trim x))"
  by (simp add: digits_trim proper_trim)

lemma trim_val: "val_digits (digits (trim x)) = val_digits (digits x)"
  by (simp add: digits_trim val_digits_trim)

lemma canonical_nonzero:
  assumes "canonical x" "\<not> isZero x"
  shows "proper (digits x)" "0 < val_digits (digits x)"
proof -
  from assms(2) have ne: "digits x \<noteq> []" by (simp add: isZero_def)
  show p: "proper (digits x)"
  proof (cases "length (digits x) = 1")
    case True
    with ne show ?thesis by (simp add: proper_def)
  next
    case False
    with ne have "\<not> length (digits x) \<le> 1" by (cases "digits x") auto
    with assms(1) ne show ?thesis by (simp add: canonical_def proper_def)
  qed
  from assms(2) proper_isZero [OF p] show "0 < val_digits (digits x)" by simp
qed

lemma proper_canonical: "proper (digits x) \<Longrightarrow> canonical x"
  by (auto simp: proper_def canonical_def)

subsection \<open>The remainder after the shift back\<close>

lemma norm_of_le: "norm_of d \<le> 32"
  by (simp add: norm_of_def)

lemma shr_nonempty:
  assumes "proper (digits x)" "2 ^ s dvd val_digits (digits x)" "s \<le> 32"
  shows "digits (shr x s) \<noteq> []"
proof (cases "isZero x \<or> s = 0")
  case True
  with assms(1) show ?thesis by (auto simp: shr_def proper_def)
next
  case False
  then have nz: "0 < val_digits (digits x)" and s0: "s \<noteq> 0"
    using proper_isZero [OF assms(1)] by simp_all
  have ws: "s div 32 < length (digits x)"
  proof (rule ccontr)
    assume "\<not> s div 32 < length (digits x)"
    then have l: "length (digits x) \<le> s div 32" by simp
    from assms(1) have "digits x \<noteq> []" by (simp add: proper_def)
    with l have "1 \<le> s div 32" by (cases "digits x") auto
    with assms(3) have s: "s = 32" by simp
    with l \<open>digits x \<noteq> []\<close> have "length (digits x) = 1" by (cases "digits x") auto
    with val_digits_lt [of "digits x"] have "val_digits (digits x) < base" by simp
    moreover from assms(2) nz s have "2 ^ 32 \<le> val_digits (digits x)"
      by (auto intro: dvd_imp_le)
    ultimately show False by (simp add: base_def)
  qed
  let ?ds0 = "drop (s div 32) (digits x)"
  let ?R = "shr_loop ?ds0 (s mod 32) (length ?ds0) 0"
  have "length ?R = length ?ds0 \<and> drop (length ?ds0) ?R = drop (length ?ds0) ?ds0 \<and>
         val_digits (take (length ?ds0) ?R)
           = (base ^ length ?ds0 * unat (0::u32) + val_digits (take (length ?ds0) ?ds0)) div 2 ^ (s mod 32)"
    by (rule shr_loop_correct) simp_all
  then have "length ?R = length ?ds0" by blast
  with ws have "?R \<noteq> []" by auto
  moreover have "shr x s = trim (x\<lparr>digits := ?R\<rparr>)"
    using False ws by (simp add: shr_def Let_def)
  ultimately show ?thesis by (simp add: digits_trim trim_digits_nonempty)
qed

lemma shl_0: "shl x 0 = x"
  by (simp add: shl_def)

lemma shr_0: "shr x 0 = x"
  by (simp add: shr_def)

subsection \<open>divmod\<close>

lemma divmod_big_unfold:
  assumes "\<not> isZero b" "\<not> isZero a" "\<not> lt (abs_big a) (abs_big b)"
    "last (digits (abs_big b)) \<noteq> 0"
  shows "divmod_big a b =
     (let s = norm_of (abs_big b);
          D = shl (abs_big b) s;
          R = shl (abs_big a) s;
          n = length (digits R);
          m = length (digits D)
      in if n + 1 < m then Some (Inl LengthError)
         else case div_loop R D (replicate (n + 1 - m) 0) m (n + 1 - m) of
                None \<Rightarrow> None
              | Some (Inl e) \<Rightarrow> Some (Inl e)
              | Some (Inr (qd, r1)) \<Rightarrow>
                  Some (Inr (trim ((trim \<lparr>digits = qd, negative = False\<rparr>)
                                     \<lparr>negative := (negative a \<noteq> negative b)\<rparr>),
                             trim ((shr r1 s)\<lparr>negative := negative a\<rparr>))))"
proof -
  have i: "(if s \<noteq> 0 then shl x s else x) = shl x s" for x s
    by (simp add: shl_0)
  have j: "(if s \<noteq> 0 then shr x s else x) = shr x s" for x s
    by (simp add: shr_0)
  have g: "isZero b = False" "isZero a = False" "lt (abs_big a) (abs_big b) = False"
    "(last (digits (abs_big b)) = 0) = False"
    using assms by simp_all
  show ?thesis
    by (simp only: divmod_big_def g if_False Let_def i j)
qed

lemma mod_scale: "(a * c) mod (b * c) div c = a mod b" if "0 < c" for a b c :: nat
  using that by (simp add: mod_mult_mult2)

lemma div_scale: "(a * c) div (b * c) = a div b" if "0 < c" for a b c :: nat
  using that by simp

lemma divmod_big_long:
  assumes a: "proper (digits a)" "0 < val_digits (digits a)"
    and b: "proper (digits b)" "0 < val_digits (digits b)"
    and ge: "val_digits (digits b) \<le> val_digits (digits a)"
  shows "divmod_big a b = Some (Inl OutOfBounds) \<or>
     (\<exists>q r. divmod_big a b = Some (Inr (q, r)) \<and> proper (digits q) \<and> proper (digits r) \<and>
        val_digits (digits q) = val_digits (digits a) div val_digits (digits b) \<and>
        val_digits (digits r) = val_digits (digits a) mod val_digits (digits b) \<and>
        (negative q \<longleftrightarrow> negative a \<noteq> negative b \<and> val_digits (digits q) \<noteq> 0) \<and>
        (negative r \<longleftrightarrow> negative a \<and> val_digits (digits r) \<noteq> 0))"
proof -
  let ?A = "val_digits (digits a)" and ?B = "val_digits (digits b)"
  define s where "s = norm_of (abs_big b)"
  define D where "D = shl (abs_big b) s"
  define R where "R = shl (abs_big a) s"
  define n where "n = length (digits R)"
  define m where "m = length (digits D)"
  have da: "digits (abs_big a) = digits a" "\<not> negative (abs_big a)"
    and db: "digits (abs_big b) = digits b" "\<not> negative (abs_big b)"
    by (simp_all add: abs_big_def)
  have nza: "\<not> isZero a" using proper_isZero [OF a(1)] a(2) by simp
  have nzb: "\<not> isZero b" using proper_isZero [OF b(1)] b(2) by simp
  have nlt: "\<not> lt (abs_big a) (abs_big b)"
    using lt_val [of "abs_big a" "abs_big b"] a(1) b(1) ge by (simp add: da db)
  have lastb: "last (digits (abs_big b)) \<noteq> 0"
    unfolding db(1) using b by (rule proper_last_nonzero)
  have Dp: "proper (digits D)" "\<not> negative D"
    unfolding D_def using b(1) db by (simp_all add: shl_proper shl_nonneg)
  have Dv: "val_digits (digits D) = ?B * 2 ^ s"
    unfolding D_def by (simp add: shl_val db)
  have Rp: "proper (digits R)" "\<not> negative R"
    unfolding R_def using a(1) da by (simp_all add: shl_proper shl_nonneg)
  have Rv: "val_digits (digits R) = ?A * 2 ^ s"
    unfolding R_def by (simp add: shl_val da)
  have D0: "0 < val_digits (digits D)" unfolding Dv using b(2) by simp
  have lastD: "last (digits D) \<noteq> 0" using Dp(1) D0 by (rule proper_last_nonzero)
  have DR: "val_digits (digits D) \<le> val_digits (digits R)"
    unfolding Dv Rv using ge by simp
  have nm: "\<not> n < m"
  proof
    assume "n < m"
    then have "val_digits (digits R) < val_digits (digits D)"
      unfolding n_def m_def by (rule proper_length_le [OF Rp(1) Dp(1)])
    with DR show False by simp
  qed
  have Dne: "digits D \<noteq> []" using Dp(1) by (simp add: proper_def)
  then have m0: "0 < m" unfolding m_def by simp
  have Rbound: "val_digits (digits R) < val_digits (digits D) * base ^ (n - m + 1)"
  proof -
    have "val_digits (digits R) < base ^ n" unfolding n_def by (rule val_digits_lt)
    also have "base ^ n = base ^ (m - 1) * base ^ (n - m + 1)"
    proof -
      have "(m - 1) + (n - m + 1) = n" using nm m0 by arith
      then show ?thesis by (simp only: power_add [symmetric])
    qed
    also have "\<dots> \<le> val_digits (digits D) * base ^ (n - m + 1)"
    proof (rule mult_le_mono1)
      have "base ^ (length (digits D) - 1) \<le> val_digits (digits D)"
        using lastD Dne by (rule val_digits_ge [rotated])
      then show "base ^ (m - 1) \<le> val_digits (digits D)" unfolding m_def .
    qed
    finally show ?thesis .
  qed
  have c: "n + 1 - m = n - m + 1" using nm by arith
  have lm: "(n + 1 < m) = False" using nm by simp
  have unf: "divmod_big a b =
      (case div_loop R D (replicate (n - m + 1) 0) m (n - m + 1) of
         None \<Rightarrow> None
       | Some (Inl e) \<Rightarrow> Some (Inl e)
       | Some (Inr (qd, r1)) \<Rightarrow>
           Some (Inr (trim ((trim \<lparr>digits = qd, negative = False\<rparr>)
                              \<lparr>negative := (negative a \<noteq> negative b)\<rparr>),
                      trim ((shr r1 s)\<lparr>negative := negative a\<rparr>))))"
    unfolding divmod_big_unfold [OF nzb nza nlt lastb] Let_def
      s_def [symmetric] D_def [symmetric] R_def [symmetric] n_def [symmetric] m_def [symmetric] c
    by (simp only: lm if_False)
  have k: "n - m + 1 \<le> length (replicate (n - m + 1) (0::u32))" by simp
  from div_loop_correct [OF Rp(2,1) Dp(2,1) lastD m_def Rbound k]
  show ?thesis
  proof
    assume "div_loop R D (replicate (n - m + 1) 0) m (n - m + 1) = Some (Inl OutOfBounds)"
    then show ?thesis unfolding unf by simp
  next
    assume "\<exists>qd' r'. div_loop R D (replicate (n - m + 1) 0) m (n - m + 1) = Some (Inr (qd', r')) \<and>
        \<not> negative r' \<and> proper (digits r') \<and>
        val_digits (digits r') = val_digits (digits R) mod val_digits (digits D) \<and>
        length qd' = length (replicate (n - m + 1) (0::u32)) \<and>
        drop (n - m + 1) qd' = drop (n - m + 1) (replicate (n - m + 1) 0) \<and>
        val_digits (take (n - m + 1) qd') = val_digits (digits R) div val_digits (digits D)"
    then obtain qd r1 where f:
      "div_loop R D (replicate (n - m + 1) 0) m (n - m + 1) = Some (Inr (qd, r1))"
      "proper (digits r1)"
      "val_digits (digits r1) = val_digits (digits R) mod val_digits (digits D)"
      "length qd = n - m + 1"
      "val_digits (take (n - m + 1) qd) = val_digits (digits R) div val_digits (digits D)"
      by auto
    let ?qu = "(trim \<lparr>digits = qd, negative = False\<rparr>)\<lparr>negative := (negative a \<noteq> negative b)\<rparr>"
    let ?q = "trim ?qu"
    let ?ru = "(shr r1 s)\<lparr>negative := negative a\<rparr>"
    let ?r = "trim ?ru"
    have res: "divmod_big a b = Some (Inr (?q, ?r))" unfolding unf f(1) by simp
    have p2: "(0::nat) < 2 ^ s" by simp
    have qdne: "qd \<noteq> []" using f(4) by auto
    have qv0: "val_digits qd = ?A div ?B"
      using f(5) f(4) unfolding Rv Dv by (simp add: div_scale [OF p2])
    have q0ne: "digits ?qu \<noteq> []"
      using qdne by (simp add: digits_trim trim_digits_nonempty)
    have q0v: "val_digits (digits ?qu) = ?A div ?B"
      using qv0 by (simp add: digits_trim val_digits_trim)
    have qp: "proper (digits ?q)" using q0ne by (rule trim_proper)
    have qv: "val_digits (digits ?q) = ?A div ?B"
      unfolding trim_val by (rule q0v)
    have qs: "negative ?q \<longleftrightarrow> negative a \<noteq> negative b \<and> val_digits (digits ?q) \<noteq> 0"
      unfolding qv trim_sign [OF q0ne] q0v by simp
    have r1v: "val_digits (digits r1) = (?A mod ?B) * 2 ^ s"
      unfolding f(3) Rv Dv by (simp add: mod_mult_mult2)
    have sle: "s \<le> 32" unfolding s_def by (rule norm_of_le)
    have "2 ^ s dvd val_digits (digits r1)" unfolding r1v by simp
    then have "digits (shr r1 s) \<noteq> []"
      using sle by (intro shr_nonempty [OF f(2)])
    then have r0ne: "digits ?ru \<noteq> []" by simp
    have r0v: "val_digits (digits ?ru) = ?A mod ?B"
      by (simp add: shr_val r1v)
    have rp: "proper (digits ?r)" using r0ne by (rule trim_proper)
    have rv: "val_digits (digits ?r) = ?A mod ?B"
      unfolding trim_val by (rule r0v)
    have rs: "negative ?r \<longleftrightarrow> negative a \<and> val_digits (digits ?r) \<noteq> 0"
      unfolding rv trim_sign [OF r0ne] r0v by simp
    from res qp rp qv rv qs rs show ?thesis by blast
  qed
qed

lemma int_of_zero: "isZero x \<Longrightarrow> int_of x = 0"
  by (simp add: int_of_def val_zero_of_isZero)

lemma abs_int_of: "\<bar>int_of x\<bar> = int (val_digits (digits x))"
  by (simp add: int_of_def)

lemma signed_division_identity:
  fixes A B :: nat and sa sb :: bool
  shows "(if sb then - int B else int B) * (if sa \<noteq> sb then - int (A div B) else int (A div B))
         + (if sa then - int (A mod B) else int (A mod B))
         = (if sa then - int A else int A)"
proof -
  have "int A = int B * int (A div B) + int (A mod B)"
    by (simp flip: of_nat_mult of_nat_add)
  then show ?thesis by (cases sa; cases sb) (simp_all add: algebra_simps)
qed

lemma int_of_sign_irrelevant:
  "val_digits (digits x) = 0 \<Longrightarrow> int_of x = 0"
  by (simp add: int_of_def)

lemma int_of_cases:
  assumes "negative x \<longleftrightarrow> s \<and> val_digits (digits x) \<noteq> 0"
  shows "int_of x = (if s then - int (val_digits (digits x)) else int (val_digits (digits x)))"
  using assms by (cases "val_digits (digits x) = 0") (auto simp: int_of_def)

lemma divmod_big_spec:
  assumes "canonical a" "canonical b" "\<not> isZero b"
  shows "divmod_big a b = Some (Inl OutOfBounds) \<or>
     (\<exists>q r. divmod_big a b = Some (Inr (q, r)) \<and>
        int_of b * int_of q + int_of r = int_of a \<and> \<bar>int_of r\<bar> < \<bar>int_of b\<bar> \<and>
        (negative q \<longleftrightarrow> negative a \<noteq> negative b \<and> \<not> isZero q) \<and>
        (negative r \<longleftrightarrow> negative a \<and> \<not> isZero r) \<and>
        canonical q \<and> canonical r)"
proof -
  let ?A = "val_digits (digits a)" and ?B = "val_digits (digits b)"
  let ?Z = "BigInt_of_int 0"
  note b = canonical_nonzero [OF assms(2,3)]
  have Z: "digits ?Z = []" "\<not> negative ?Z" "isZero ?Z" "int_of ?Z = 0" "canonical ?Z"
    by (simp_all add: BigInt_of_int_def isZero_def int_of_def canonical_def)
  have bpos: "0 < \<bar>int_of b\<bar>" using b(2) by (simp add: abs_int_of)
  show ?thesis
  proof (cases "isZero a")
    case True
    then have "divmod_big a b = Some (Inr (?Z, ?Z))"
      using assms(3) by (simp add: divmod_big_def)
    moreover have "int_of b * int_of ?Z + int_of ?Z = int_of a"
      using True by (simp add: Z int_of_zero)
    moreover have "\<bar>int_of ?Z\<bar> < \<bar>int_of b\<bar>" using bpos by (simp add: Z)
    ultimately show ?thesis using Z by blast
  next
    case False
    note a = canonical_nonzero [OF assms(1) False]
    have da: "digits (abs_big a) = digits a" "\<not> negative (abs_big a)"
      and db: "digits (abs_big b) = digits b" "\<not> negative (abs_big b)"
      by (simp_all add: abs_big_def)
    have lt_iff: "lt (abs_big a) (abs_big b) \<longleftrightarrow> ?A < ?B"
      using lt_val [of "abs_big a" "abs_big b"] a(1) b(1) by (simp add: da db)
    show ?thesis
    proof (cases "?A < ?B")
      case True
      then have "divmod_big a b = Some (Inr (?Z, a))"
        using assms(3) False lt_iff by (simp add: divmod_big_def Let_def)
      moreover have "int_of b * int_of ?Z + int_of a = int_of a" by (simp add: Z)
      moreover have "\<bar>int_of a\<bar> < \<bar>int_of b\<bar>" using True by (simp add: abs_int_of)
      ultimately show ?thesis using Z False assms(1) by blast
    next
      case ge: False
      then have "?B \<le> ?A" by simp
      from divmod_big_long [OF a b this] show ?thesis
      proof
        assume "divmod_big a b = Some (Inl OutOfBounds)"
        then show ?thesis ..
      next
        assume "\<exists>q r. divmod_big a b = Some (Inr (q, r)) \<and> proper (digits q) \<and> proper (digits r) \<and>
          val_digits (digits q) = ?A div ?B \<and> val_digits (digits r) = ?A mod ?B \<and>
          (negative q \<longleftrightarrow> negative a \<noteq> negative b \<and> val_digits (digits q) \<noteq> 0) \<and>
          (negative r \<longleftrightarrow> negative a \<and> val_digits (digits r) \<noteq> 0)"
        then obtain q r where f: "divmod_big a b = Some (Inr (q, r))"
          "proper (digits q)" "proper (digits r)"
          "val_digits (digits q) = ?A div ?B" "val_digits (digits r) = ?A mod ?B"
          "negative q \<longleftrightarrow> negative a \<noteq> negative b \<and> val_digits (digits q) \<noteq> 0"
          "negative r \<longleftrightarrow> negative a \<and> val_digits (digits r) \<noteq> 0"
          by blast
        have iq: "int_of q = (if negative a \<noteq> negative b then - int (?A div ?B) else int (?A div ?B))"
          using int_of_cases [OF f(6)] by (simp only: f(4))
        have ir: "int_of r = (if negative a then - int (?A mod ?B) else int (?A mod ?B))"
          using int_of_cases [OF f(7)] by (simp only: f(5))
        have e: "int_of b * int_of q + int_of r = int_of a"
          unfolding iq ir unfolding int_of_def by (rule signed_division_identity)
        have l: "\<bar>int_of r\<bar> < \<bar>int_of b\<bar>"
          using b(2) by (simp add: abs_int_of f(5))
        have sq: "negative q \<longleftrightarrow> negative a \<noteq> negative b \<and> \<not> isZero q"
          using f(6) proper_isZero [OF f(2)] by simp
        have sr: "negative r \<longleftrightarrow> negative a \<and> \<not> isZero r"
          using f(7) proper_isZero [OF f(3)] by simp
        from f(1) e l sq sr proper_canonical [OF f(2)] proper_canonical [OF f(3)]
        show ?thesis by blast
      qed
    qed
  qed
qed

lemma divmod_big_by_zero: "divmod_big a b = Some (Inl DivisionByZero) \<longleftrightarrow> isZero b"
  if "canonical a" "canonical b"
proof
  assume "isZero b"
  then show "divmod_big a b = Some (Inl DivisionByZero)" by (simp add: divmod_big_def)
next
  assume d: "divmod_big a b = Some (Inl DivisionByZero)"
  show "isZero b"
  proof (rule ccontr)
    assume "\<not> isZero b"
    from divmod_big_spec [OF that this] d show False by auto
  qed
qed

subsection \<open>Division by a small divisor\<close>






subsection \<open>Decimal output\<close>





subsection \<open>Decimal input\<close>





















subsection \<open>Printing and parsing again\<close>








section \<open>Bitwise AND and OR\<close>

lemma and_loop_eq:
  "and_loop ds os n i acc = acc @ map (\<lambda>k. ds ! k AND os ! k) [i..<n]"
proof (induction ds os n i acc rule: and_loop.induct)
  case (1 ds os n i acc)
  show ?case
  proof (cases "i < n")
    case True
    then have "and_loop ds os n i acc = and_loop ds os n (i + 1) (acc @ [ds ! i AND os ! i])"
      by (subst and_loop.simps) simp
    also have "\<dots> = (acc @ [ds ! i AND os ! i]) @ map (\<lambda>k. ds ! k AND os ! k) [i + 1..<n]"
      using 1 True by simp
    also have "\<dots> = acc @ map (\<lambda>k. ds ! k AND os ! k) [i..<n]"
      using True by (simp add: upt_conv_Cons)
    finally show ?thesis .
  next
    case False
    then show ?thesis by (subst and_loop.simps) simp
  qed
qed

lemma or_loop_eq:
  "or_loop ds os n i acc =
     acc @ map (\<lambda>k. (if k < length ds then ds ! k else 0) OR (if k < length os then os ! k else 0))
               [i..<n]"
proof (induction ds os n i acc rule: or_loop.induct)
  case (1 ds os n i acc)
  let ?f = "\<lambda>k. (if k < length ds then ds ! k else 0) OR (if k < length os then os ! k else 0)"
  show ?case
  proof (cases "i < n")
    case True
    from True have "or_loop ds os n i acc = or_loop ds os n (i + 1) (acc @ [?f i])"
      by (subst or_loop.simps) (simp add: Let_def)
    also have "\<dots> = (acc @ [?f i]) @ map ?f [i + 1..<n]"
      using 1 [OF True refl refl] by simp
    also have "\<dots> = acc @ map ?f [i..<n]"
      using True by (simp add: upt_conv_Cons)
    finally show ?thesis .
  next
    case False
    then show ?thesis by (subst or_loop.simps) simp
  qed
qed

lemma map_nth_upt_map2:
  "map (\<lambda>k. f (xs ! k) (ys ! k)) [0..<min (length xs) (length ys)] = map2 f xs ys"
  by (rule nth_equalityI) auto

lemma or_padded:
  "map (\<lambda>k. (if k < length ds then ds ! k else 0) OR (if k < length os then os ! k else 0))
       [0..<max (length ds) (length os)]
   = map2 (OR) (ds @ replicate (length os - length ds) 0)
               (os @ replicate (length ds - length os) 0)"
  by (rule nth_equalityI) (auto simp: nth_append)

lemma trim_digits_step:
  "trim_digits ds = (if length ds > 1 \<and> last ds = 0 then trim_digits (butlast ds) else ds)"
  by (subst trim_digits.simps) simp

lemma canonical_trim: "canonical (trim x)"
  using trim_digits_canonical [of "digits x"] by (simp add: canonical_def trim_def Let_def)

text \<open>
  C10. For all \<open>a\<close> and \<open>b\<close>, the words of \<open>a & b\<close> are the word-wise AND over the
  common prefix of the two magnitudes (the length of the shorter one), and the words of
  \<open>a | b\<close> are the word-wise OR of the two magnitudes, the shorter one padded with zero
  words to the length of the longer; both are then trimmed, so both results are in
  canonical form. Neither result carries a sign, whatever the signs of the operands.
\<close>

theorem bitwise_and_or:
  "digits (band a b) = trim_digits (map2 (AND) (digits a) (digits b))
   \<and> digits (bor a b) =
       trim_digits (map2 (OR) (digits a @ replicate (length (digits b) - length (digits a)) 0)
                             (digits b @ replicate (length (digits a) - length (digits b)) 0))
   \<and> canonical (band a b) \<and> canonical (bor a b)
   \<and> \<not> negative (band a b) \<and> \<not> negative (bor a b)"
proof -
  have "canonical (band a b)" "canonical (bor a b)"
    by (simp_all add: band_def bor_def Let_def canonical_trim)
  then show ?thesis
    by (simp add: band_def bor_def trim_def BigInt_default_def and_loop_eq or_loop_eq
        map_nth_upt_map2 or_padded Let_def)
qed

theorem bitwise_and_or_witness:
  "digits (band \<lparr>digits = [12, 10, 1], negative = True\<rparr> \<lparr>digits = [10, 5], negative = False\<rparr>) = [8]
   \<and> digits (bor \<lparr>digits = [12, 10, 1], negative = True\<rparr> \<lparr>digits = [10, 5], negative = False\<rparr>)
       = [14, 15, 1]
   \<and> canonical (band \<lparr>digits = [12, 10, 1], negative = True\<rparr> \<lparr>digits = [10, 5], negative = False\<rparr>)
   \<and> \<not> negative (band \<lparr>digits = [12, 10, 1], negative = True\<rparr> \<lparr>digits = [10, 5], negative = False\<rparr>)"
  using bitwise_and_or [of "\<lparr>digits = [12, 10, 1], negative = True\<rparr>"
                           "\<lparr>digits = [10, 5], negative = False\<rparr>"]
  by (simp add: trim_digits_step)

section \<open>The pre-shift of the long division\<close>

text \<open>
  C2. The claim: \<open>norm\<close> is the number of leading zero bits of the divisor's top word,
  and the shifted divisor has the highest bit of its top word set. The source computes
  \<^verbatim>\<open>32 - __builtin_clz(top)\<close>, the bit length of the top word. For the divisor \<open>1\<close>
  the top word has 31 leading zero bits, \<open>norm\<close> is \<open>1\<close>, the shifted divisor is \<open>2\<close>
  and bit 31 of its top word is clear.
\<close>

theorem norm_is_bit_length_not_clz:
  "builtin_clz (last (digits \<lparr>digits = [1], negative = False\<rparr>)) = 31
   \<and> norm_of \<lparr>digits = [1], negative = False\<rparr> = 1
   \<and> shl \<lparr>digits = [1], negative = False\<rparr> (norm_of \<lparr>digits = [1], negative = False\<rparr>)
       = \<lparr>digits = [2], negative = False\<rparr>
   \<and> \<not> bit (last (digits (shl \<lparr>digits = [1], negative = False\<rparr>
                                 (norm_of \<lparr>digits = [1], negative = False\<rparr>)))) 31"
  by code_simp

section \<open>Parsing a negative zero\<close>

text \<open>
  C7. The claim: a zero magnitude always has the sign flag cleared, and parsing \<open>"-0"\<close>
  gives the same value as parsing \<open>"0"\<close>. The string constructor sets the flag from the
  leading \<open>'-'\<close> and never calls \<open>trim\<close>: \<open>"-0"\<close> parses to the word \<open>0\<close> with the flag
  set, which \<open>operator==\<close> tells apart from the result of parsing \<open>"0"\<close>.
\<close>

theorem parse_minus_zero_keeps_sign:
  "BigInt_of_string ''-0'' = Some (Inr \<lparr>digits = [0], negative = True\<rparr>)
   \<and> BigInt_of_string ''0'' = Some (Inr \<lparr>digits = [0], negative = False\<rparr>)
   \<and> isZero \<lparr>digits = [0], negative = True\<rparr>
   \<and> \<not> eq \<lparr>digits = [0], negative = True\<rparr> \<lparr>digits = [0], negative = False\<rparr>"
  by code_simp

section \<open>The unguarded read of the long division\<close>

text \<open>
  C4. The claim: the read of the running remainder at \<open>i + m - 1\<close> is always in range.
  For \<open>a = 2^96\<close> and \<open>b = 2^32\<close> the shifted operands are \<open>[0, 0, 0, 2]\<close> and
  \<open>[0, 2]\<close>, so \<open>n = 4\<close> and \<open>m = 2\<close>. The step at \<open>i = 2\<close> subtracts the whole
  remainder, and \<open>trim\<close> leaves the single word \<open>[0]\<close>; the step at \<open>i = 1\<close> then reads
  index \<open>2\<close> of a vector of size \<open>1\<close>. The read of \<open>r_hi\<close> one line above has the guard
  that this one lacks.
\<close>

theorem divmod_reads_out_of_bounds:
  "sub \<lparr>digits = [0, 0, 0, 2], negative = False\<rparr> \<lparr>digits = [0, 0, 0, 2], negative = False\<rparr>
     = Some \<lparr>digits = [0], negative = False\<rparr>
   \<and> div_loop \<lparr>digits = [0], negative = False\<rparr> \<lparr>digits = [0, 2], negative = False\<rparr>
        [0, 0, 1] 2 2 = Some (Inl OutOfBounds)
   \<and> divmod_big \<lparr>digits = [0, 0, 0, 1], negative = False\<rparr> \<lparr>digits = [0, 1], negative = False\<rparr>
       = Some (Inl OutOfBounds)"
  by code_simp

section \<open>Adding zero to a negative number\<close>

text \<open>
  When the signs differ, \<open>operator+\<close> calls \<open>operator-\<close> with the negated right
  operand and \<open>operator-\<close> calls \<open>operator+\<close> in the same way. Unary minus leaves a
  zero as it is, so with a zero on the right the signs still differ after the negation
  and the two operators call each other without end: no call of that kind returns.
\<close>

lemma addsub_returns_only_if:
  assumes "addsub is_sub x y = Some r"
  shows "\<not> (negative x \<noteq> negative y \<and> isZero y)"
proof -
  have step: "\<not> (negative x \<noteq> negative y \<and> isZero y)"
    if ih: "\<And>s x y r. f s x y = Some r \<Longrightarrow> \<not> (negative x \<noteq> negative y \<and> isZero y)"
    and call: "(if \<not> is_sub
      then if negative x = negative y
           then Some \<lparr>digits = add_loop (digits x) (digits y) 0 0 [], negative = negative x\<rparr>
           else f True x (neg y)
      else if negative x \<noteq> negative y then f False x (neg y)
           else if ge (abs_big x) (abs_big y)
                then Some (trim \<lparr>digits = sub_loop (digits x) (digits y) 0 0 [], negative = negative x\<rparr>)
                else Option.bind (f True y x) (\<lambda>r. Some (neg r))) = Some r"
    for f is_sub x y r
  proof
    assume h: "negative x \<noteq> negative y \<and> isZero y"
    then have n: "neg y = y" by (simp add: neg_def)
    show False
    proof (cases is_sub)
      case True
      with call h n have "f False x y = Some r" by simp
      from ih [OF this] h show False by simp
    next
      case False
      with call h n have "f True x y = Some r" by simp
      from ih [OF this] h show False by simp
    qed
  qed
  show ?thesis
  proof (rule addsub.raw_induct [where P = "\<lambda>s x y r. \<not> (negative x \<noteq> negative y \<and> isZero y)"
        and xa = "((is_sub, x), y)" and ya = r, unfolded prod.case])
    fix f s x y r
    assume "\<And>s x y r. f s x y = Some r \<Longrightarrow> \<not> (negative x \<noteq> negative y \<and> isZero y)"
      and "(if \<not> s
      then if negative x = negative y
           then Some \<lparr>digits = add_loop (digits x) (digits y) 0 0 [], negative = negative x\<rparr>
           else f True x (neg y)
      else if negative x \<noteq> negative y then f False x (neg y)
           else if ge (abs_big x) (abs_big y)
                then Some (trim \<lparr>digits = sub_loop (digits x) (digits y) 0 0 [], negative = negative x\<rparr>)
                else Option.bind (f True y x) (\<lambda>r. Some (neg r))) = Some r"
    then show "\<not> (negative x \<noteq> negative y \<and> isZero y)"
      by (rule step)
  next
    show "addsub is_sub x y = Some r" by (rule assms)
  qed
qed

lemma add_diverges: "negative x \<noteq> negative y \<Longrightarrow> isZero y \<Longrightarrow> add x y = None"
  using addsub_returns_only_if [of False x y] by (cases "add x y") (auto simp: add_def)

text \<open>
  C3. The claim: for every \<open>x\<close>, \<open>x + 0\<close> terminates and equals \<open>x\<close>. For the
  negative \<open>x = -5\<close> (as parsed from \<open>"-5"\<close>) and the zero made by \<open>BigInt(0)\<close> or
  parsed from \<open>"0"\<close>, the addition never returns.
\<close>

theorem add_zero_to_negative_diverges:
  "BigInt_of_string ''-5'' = Some (Inr \<lparr>digits = [5], negative = True\<rparr>)
   \<and> add \<lparr>digits = [5], negative = True\<rparr> (BigInt_of_int 0) = None
   \<and> add \<lparr>digits = [5], negative = True\<rparr> \<lparr>digits = [0], negative = False\<rparr> = None"
proof -
  have "BigInt_of_string ''-5'' = Some (Inr \<lparr>digits = [5], negative = True\<rparr>)"
    by code_simp
  moreover have "add \<lparr>digits = [5], negative = True\<rparr> (BigInt_of_int 0) = None"
    by (rule add_diverges) (simp_all add: BigInt_of_int_def isZero_def)
  moreover have "add \<lparr>digits = [5], negative = True\<rparr> \<lparr>digits = [0], negative = False\<rparr> = None"
    by (rule add_diverges) (simp_all add: isZero_def)
  ultimately show ?thesis by simp
qed

section \<open>Truncating division\<close>

text \<open>
  C1, as stated, gives the quotient the XOR of the operand signs and the remainder the
  sign of the dividend. Both outputs are trimmed last, and \<open>trim\<close> clears the sign of a
  zero: \<open>-1 / 2\<close> has the quotient zero without a sign although the operand signs
  differ, and \<open>-6 % 3\<close> is a zero without a sign although the dividend is negative.
\<close>

theorem divmod_zero_results_carry_no_sign:
  "divmod_big \<lparr>digits = [1], negative = True\<rparr> \<lparr>digits = [2], negative = False\<rparr>
     = Some (Inr (\<lparr>digits = [], negative = False\<rparr>, \<lparr>digits = [1], negative = True\<rparr>))
   \<and> negative \<lparr>digits = [], negative = False\<rparr>
       \<noteq> (negative \<lparr>digits = [1], negative = True\<rparr> \<noteq> negative \<lparr>digits = [2], negative = False\<rparr>)
   \<and> divmod_big \<lparr>digits = [6], negative = True\<rparr> \<lparr>digits = [3], negative = False\<rparr>
     = Some (Inr (\<lparr>digits = [2], negative = True\<rparr>, \<lparr>digits = [0], negative = False\<rparr>))
   \<and> negative \<lparr>digits = [0], negative = False\<rparr> \<noteq> negative \<lparr>digits = [6], negative = True\<rparr>"
  by code_simp

text \<open>
  C1, amended. For every \<open>a\<close> and every non-zero \<open>b\<close> in canonical form, \<open>divmod\<close>
  either stops at the unguarded read of the long-division loop (the defect of C4, neither
  promised nor excluded here) or returns \<open>q\<close> and \<open>r\<close>, the results of \<open>/\<close> and \<open>%\<close>,
  such that, as integers, \<open>b * q + r = a\<close> and \<open>|r| < |b|\<close>; \<open>q\<close> is negative exactly
  when the operand signs differ and \<open>q\<close> is not zero, and \<open>r\<close> is negative exactly when
  \<open>a\<close> is negative and \<open>r\<close> is not zero. No other outcome occurs: the call terminates,
  and with no other error.
\<close>

theorem divmod_truncating:
  assumes "canonical a" "canonical b" "\<not> isZero b"
  shows "divmod_big a b = Some (Inl OutOfBounds) \<or>
     (\<exists>q r. divmod_big a b = Some (Inr (q, r)) \<and>
        div_big a b = Some (Inr q) \<and> mod_big a b = Some (Inr r) \<and>
        int_of b * int_of q + int_of r = int_of a \<and> \<bar>int_of r\<bar> < \<bar>int_of b\<bar> \<and>
        (negative q \<longleftrightarrow> negative a \<noteq> negative b \<and> \<not> isZero q) \<and>
        (negative r \<longleftrightarrow> negative a \<and> \<not> isZero r))"
  using divmod_big_spec [OF assms] by (auto simp: div_big_def mod_big_def)

theorem divmod_truncating_witness:
  "canonical \<lparr>digits = [7], negative = True\<rparr> \<and> canonical \<lparr>digits = [2], negative = False\<rparr>
   \<and> \<not> isZero \<lparr>digits = [2], negative = False\<rparr>
   \<and> divmod_big \<lparr>digits = [7], negative = True\<rparr> \<lparr>digits = [2], negative = False\<rparr>
       = Some (Inr (\<lparr>digits = [3], negative = True\<rparr>, \<lparr>digits = [1], negative = True\<rparr>))
   \<and> int_of \<lparr>digits = [2], negative = False\<rparr> * int_of \<lparr>digits = [3], negative = True\<rparr>
       + int_of \<lparr>digits = [1], negative = True\<rparr> = int_of \<lparr>digits = [7], negative = True\<rparr>
   \<and> \<bar>int_of \<lparr>digits = [1], negative = True\<rparr>\<bar> < \<bar>int_of \<lparr>digits = [2], negative = False\<rparr>\<bar>"
proof -
  have h: "canonical \<lparr>digits = [7], negative = True\<rparr>"
    "canonical \<lparr>digits = [2], negative = False\<rparr>"
    "\<not> isZero \<lparr>digits = [2], negative = False\<rparr>"
    by (simp_all add: canonical_def isZero_def)
  have e: "divmod_big \<lparr>digits = [7], negative = True\<rparr> \<lparr>digits = [2], negative = False\<rparr>
       = Some (Inr (\<lparr>digits = [3], negative = True\<rparr>, \<lparr>digits = [1], negative = True\<rparr>))"
    by code_simp
  from divmod_truncating [OF h] e h show ?thesis by simp
qed

section \<open>Termination of the division\<close>




section \<open>Division by zero and by other divisors\<close>

text \<open>
  C9. The claim: division and remainder fail with \<open>DivisionByZero\<close> exactly when the
  divisor is zero and return normally for every other divisor. The first half holds
  (\<open>divmod_big_by_zero\<close>), and so does the scenario of \<open>"100"\<close> and \<open>"0"\<close>. The
  second half does not: for \<open>a = 2^64\<close> and \<open>b = 1\<close>, both as parsed from their
  decimal strings, \<open>/\<close> and \<open>%\<close> end at the out-of-range read of the long-division
  loop, the defect of C4.
\<close>

theorem division_by_nonzero_reads_out_of_bounds:
  "BigInt_of_string ''18446744073709551616'' = Some (Inr \<lparr>digits = [0, 0, 1], negative = False\<rparr>)
   \<and> BigInt_of_string ''1'' = Some (Inr \<lparr>digits = [1], negative = False\<rparr>)
   \<and> \<not> isZero \<lparr>digits = [1], negative = False\<rparr>
   \<and> div_big \<lparr>digits = [0, 0, 1], negative = False\<rparr> \<lparr>digits = [1], negative = False\<rparr>
       = Some (Inl OutOfBounds)
   \<and> mod_big \<lparr>digits = [0, 0, 1], negative = False\<rparr> \<lparr>digits = [1], negative = False\<rparr>
       = Some (Inl OutOfBounds)
   \<and> div_big \<lparr>digits = [100], negative = False\<rparr> \<lparr>digits = [0], negative = False\<rparr>
       = Some (Inl DivisionByZero)
   \<and> mod_big \<lparr>digits = [100], negative = False\<rparr> \<lparr>digits = [0], negative = False\<rparr>
       = Some (Inl DivisionByZero)
   \<and> add \<lparr>digits = [100], negative = False\<rparr> \<lparr>digits = [0], negative = False\<rparr>
       = Some \<lparr>digits = [100], negative = False\<rparr>
   \<and> sub \<lparr>digits = [100], negative = False\<rparr> \<lparr>digits = [0], negative = False\<rparr>
       = Some \<lparr>digits = [100], negative = False\<rparr>
   \<and> mul \<lparr>digits = [100], negative = False\<rparr> \<lparr>digits = [0], negative = False\<rparr>
       = Inr \<lparr>digits = [0], negative = False\<rparr>
   \<and> band \<lparr>digits = [100], negative = False\<rparr> \<lparr>digits = [0], negative = False\<rparr>
       = \<lparr>digits = [0], negative = False\<rparr>
   \<and> bor \<lparr>digits = [100], negative = False\<rparr> \<lparr>digits = [0], negative = False\<rparr>
       = \<lparr>digits = [100], negative = False\<rparr>"
  by code_simp

section \<open>Parsing decimal strings\<close>




section \<open>Printing a value and parsing it again\<close>




end
